theory Spec2Isabelle
  imports Complex_Main "HOL-Library.Word"
begin

section \<open>The terrain grid\<close>

text \<open>
  The terrain is an \<^verbatim>\<open>olc::Sprite\<close> of \<^verbatim>\<open>olc::Pixel\<close>s, four 8-bit channels each.
  The C++ \<^verbatim>\<open>float\<close> and \<^verbatim>\<open>double\<close> values are idealised as real numbers: rounding
  is not modelled, except for the loop variable of the cone sweeps, whose additions are
  rounded to single precision because the number of iterations depends on them. Conversions
  from a floating value to an integer type truncate toward zero, as in C++. The C++
  \<^verbatim>\<open>int\<close> is modelled as an unbounded integer.
\<close>

record Pixel =
  r :: "8 word"
  g :: "8 word"
  b :: "8 word"
  a :: "8 word"

type_synonym vi2d = "int \<times> int"
type_synonym vf2d = "real \<times> real"

record Sprite =
  width :: int
  height :: int
  pColData :: "vi2d \<Rightarrow> Pixel"

text \<open>\<^verbatim>\<open>olc::Pixel{r, g, b}\<close>: the alpha channel defaults to 255.\<close>

definition Pixel3 :: "8 word \<Rightarrow> 8 word \<Rightarrow> 8 word \<Rightarrow> Pixel" where
  "Pixel3 red green blue = \<lparr>r = red, g = green, b = blue, a = 255\<rparr>"

definition BLACK :: Pixel where
  "BLACK = Pixel3 0 0 0"

definition WHITE :: Pixel where
  "WHITE = Pixel3 255 255 255"

definition BLANK :: Pixel where
  "BLANK = \<lparr>r = 0, g = 0, b = 0, a = 0\<rparr>"

definition in_sprite :: "Sprite \<Rightarrow> vi2d \<Rightarrow> bool" where
  "in_sprite m pos = (0 \<le> fst pos \<and> fst pos < width m \<and> 0 \<le> snd pos \<and> snd pos < height m)"

text \<open>
  Modelled from the spec: \<^verbatim>\<open>olc::Sprite::GetPixel\<close> and \<^verbatim>\<open>olc::Sprite::SetPixel\<close> are
  declared in olcPixelGameEngine.h, which is not among the sources. Section 7 of the
  specification recommends treating an off-grid cell as empty: a read outside the sprite
  answers the blank pixel (all channels 0) and a write outside the sprite changes nothing.
\<close>

definition GetPixel :: "Sprite \<Rightarrow> vi2d \<Rightarrow> Pixel" where
  "GetPixel m pos = (if in_sprite m pos then pColData m pos else BLANK)"

definition SetPixel :: "Sprite \<Rightarrow> vi2d \<Rightarrow> Pixel \<Rightarrow> Sprite" where
  "SetPixel m pos p = (if in_sprite m pos then m\<lparr>pColData := (pColData m)(pos := p)\<rparr> else m)"

text \<open>Conversion of a floating value to an integer type: truncation toward zero.\<close>

definition float_to_int :: "real \<Rightarrow> int" where
  "float_to_int x = (if 0 \<le> x then \<lfloor>x\<rfloor> else \<lceil>x\<rceil>)"

definition to_uint8 :: "real \<Rightarrow> 8 word" where
  "to_uint8 x = word_of_int (float_to_int x)"

text \<open>The conversion \<^verbatim>\<open>float(pixel.r)\<close> of an 8-bit channel.\<close>

definition uint8_to_float :: "8 word \<Rightarrow> real" where
  "uint8_to_float w = real (unat w)"

definition clamp :: "real \<Rightarrow> real \<Rightarrow> real \<Rightarrow> real" where
  "clamp v lo hi = (if v < lo then lo else if hi < v then hi else v)"

definition MapLocationIsEmpty :: "Sprite \<Rightarrow> vi2d \<Rightarrow> bool" where
  "MapLocationIsEmpty m pos =
     (let pixel = GetPixel m pos in r pixel = 0 \<and> g pixel = 0 \<and> b pixel = 0)"

definition MapLocationIsFull :: "Sprite \<Rightarrow> vi2d \<Rightarrow> bool" where
  "MapLocationIsFull m pos =
     (let pixel = GetPixel m pos in r pixel = 255 \<and> g pixel = 255 \<and> b pixel = 255)"

definition GetColourValue :: "Sprite \<Rightarrow> vi2d \<Rightarrow> real" where
  "GetColourValue m pos = (let pixel = GetPixel m pos in uint8_to_float (r pixel) / 255)"

definition SubtractValueFromColour :: "Sprite \<Rightarrow> vi2d \<Rightarrow> real \<Rightarrow> Sprite" where
  "SubtractValueFromColour m pos fraction =
     (let pixel = GetPixel m pos;
          curr_fraction = uint8_to_float (r pixel) / 255;
          result_fraction = clamp (curr_fraction - fraction) 0 1;
          projected = to_uint8 (result_fraction * 255)
      in SetPixel m pos (Pixel3 projected projected projected))"

definition AddValueToColour :: "Sprite \<Rightarrow> vi2d \<Rightarrow> real \<Rightarrow> Sprite" where
  "AddValueToColour m pos fraction =
     (let pixel = GetPixel m pos;
          curr_fraction = uint8_to_float (r pixel) / 255;
          result_fraction = clamp (curr_fraction + fraction) 0 1;
          projected = to_uint8 (result_fraction * 255)
      in SetPixel m pos (Pixel3 projected projected projected))"

definition SetColourValue :: "Sprite \<Rightarrow> vi2d \<Rightarrow> real \<Rightarrow> Sprite" where
  "SetColourValue m pos fraction =
     (let result_fraction = clamp fraction 0 1;
          projected = to_uint8 (result_fraction * 255)
      in SetPixel m pos (Pixel3 projected projected projected))"

definition MapValue :: "real \<Rightarrow> real \<Rightarrow> real \<Rightarrow> real \<Rightarrow> real \<Rightarrow> real" where
  "MapValue val in_min in_max out_min out_max =
     (val - in_min) * (out_max - out_min) / (in_max - in_min) + out_min"

definition GaussianCurve :: "real \<Rightarrow> real" where
  "GaussianCurve x = exp (- x * x)"

definition EaseInOutCubic :: "real \<Rightarrow> real" where
  "EaseInOutCubic x = (if x < 0.5 then 4 * x * x * x else 1 - (- 2 * x + 2) ^ 3 / 2)"

definition Lerp :: "real \<Rightarrow> real \<Rightarrow> real \<Rightarrow> real" where
  "Lerp from to t = from * (1 - t) + to * t"

definition AngleToRadians :: "real \<Rightarrow> real" where
  "AngleToRadians angle = angle * pi / 180"

definition RotateVector :: "vf2d \<Rightarrow> real \<Rightarrow> vf2d" where
  "RotateVector vec radians =
     (fst vec * cos radians + snd vec * sin radians,
      fst vec * - sin radians + snd vec * cos radians)"

text \<open>The level a density is stored at: clamped to the unit interval, scaled, truncated.\<close>

definition quantise :: "real \<Rightarrow> real" where
  "quantise v = uint8_to_float (to_uint8 (clamp v 0 1 * 255)) / 255"

text \<open>A grid every cell of which holds the same pixel.\<close>

definition uniform_grid :: "int \<Rightarrow> int \<Rightarrow> Pixel \<Rightarrow> Sprite" where
  "uniform_grid w h p = \<lparr>width = w, height = h, pColData = (\<lambda>pos. p)\<rparr>"

section \<open>The raycaster\<close>

text \<open>
  The three raycasts walk the grid with the same DDA loop. Its floating quantities are
  finite values, the positive infinity (the unit step of an axis whose direction component
  is zero: a nonzero value divided by zero is an infinity, and 1 + inf * inf and its square
  root are infinite) and not-a-number (both direction components zero). A comparison with
  not-a-number is false. Negative infinity cannot arise in the walk: the factors of the
  initial ray lengths are 0 and 1 and every step added is positive.
\<close>

datatype fval = Fin real | PInf | NaN

fun fless :: "fval \<Rightarrow> fval \<Rightarrow> bool" where
  "fless (Fin x) (Fin y) = (x < y)"
| "fless (Fin x) PInf = True"
| "fless _ _ = False"

fun fadd :: "fval \<Rightarrow> fval \<Rightarrow> fval" where
  "fadd (Fin x) (Fin y) = Fin (x + y)"
| "fadd NaN _ = NaN"
| "fadd _ NaN = NaN"
| "fadd _ _ = PInf"

text \<open>The product of a factor \<open>c \<ge> 0\<close> and a step length.\<close>

fun fmul :: "real \<Rightarrow> fval \<Rightarrow> fval" where
  "fmul c (Fin s) = Fin (c * s)"
| "fmul c PInf = (if c = 0 then NaN else PInf)"
| "fmul c NaN = NaN"

definition ray_unit_step :: "real \<Rightarrow> real \<Rightarrow> fval" where
  "ray_unit_step num den =
     (if den = 0 then (if num = 0 then NaN else PInf)
      else Fin (sqrt (1 + (num / den) * (num / den))))"

text \<open>
  The local variables of the walk. \<^verbatim>\<open>previous_tile\<close> is a variable of \<^verbatim>\<open>RaycastPrePixel\<close>
  only; the other two raycasts have the same loop without it and never read it.
\<close>

record dda_state =
  vMapCheck :: vi2d
  vRayLength1D :: "fval \<times> fval"
  fDistance :: fval
  bTileFound :: bool
  previous_tile :: vi2d

definition vRayUnitStepSize :: "vf2d \<Rightarrow> fval \<times> fval" where
  "vRayUnitStepSize ray_dir =
     (ray_unit_step (snd ray_dir) (fst ray_dir), ray_unit_step (fst ray_dir) (snd ray_dir))"

definition vStep :: "vf2d \<Rightarrow> vi2d" where
  "vStep ray_dir = (if fst ray_dir < 0 then - 1 else 1, if snd ray_dir < 0 then - 1 else 1)"

text \<open>"Establish Starting Conditions".\<close>

definition dda_start :: "vi2d \<Rightarrow> vf2d \<Rightarrow> dda_state" where
  "dda_start ray_start_pos ray_dir =
     (let vMapCheck0 = ray_start_pos in
      \<lparr>vMapCheck = vMapCheck0,
       vRayLength1D =
         (if fst ray_dir < 0
          then fmul (real_of_int (fst ray_start_pos) - real_of_int (fst vMapCheck0))
                 (fst (vRayUnitStepSize ray_dir))
          else fmul (real_of_int (fst vMapCheck0 + 1) - real_of_int (fst ray_start_pos))
                 (fst (vRayUnitStepSize ray_dir)),
          if snd ray_dir < 0
          then fmul (real_of_int (snd ray_start_pos) - real_of_int (snd vMapCheck0))
                 (snd (vRayUnitStepSize ray_dir))
          else fmul (real_of_int (snd vMapCheck0 + 1) - real_of_int (snd ray_start_pos))
                 (snd (vRayUnitStepSize ray_dir))),
       fDistance = Fin 0,
       bTileFound = False,
       previous_tile = vMapCheck0\<rparr>)"

definition in_map :: "vi2d \<Rightarrow> vi2d \<Rightarrow> bool" where
  "in_map map_size pos =
     (fst pos \<ge> 0 \<and> fst pos < fst map_size \<and> snd pos \<ge> 0 \<and> snd pos < snd map_size)"

text \<open>"Walk along shortest path".\<close>

definition dda_walk :: "vf2d \<Rightarrow> dda_state \<Rightarrow> dda_state" where
  "dda_walk ray_dir st =
     (if fless (fst (vRayLength1D st)) (snd (vRayLength1D st))
      then st\<lparr>vMapCheck := (fst (vMapCheck st) + fst (vStep ray_dir), snd (vMapCheck st)),
              fDistance := fst (vRayLength1D st),
              vRayLength1D := (fadd (fst (vRayLength1D st)) (fst (vRayUnitStepSize ray_dir)),
                               snd (vRayLength1D st))\<rparr>
      else st\<lparr>vMapCheck := (fst (vMapCheck st), snd (vMapCheck st) + snd (vStep ray_dir)),
              fDistance := snd (vRayLength1D st),
              vRayLength1D := (fst (vRayLength1D st),
                               fadd (snd (vRayLength1D st)) (snd (vRayUnitStepSize ray_dir)))\<rparr>)"

text \<open>
  One iteration of the loop: remember the previous tile, walk, then "test tile at new test
  point" with the occupancy test of the variant, only when the tile is within the map.
\<close>

definition dda_body :: "(vi2d \<Rightarrow> bool) \<Rightarrow> vi2d \<Rightarrow> vf2d \<Rightarrow> dda_state \<Rightarrow> dda_state" where
  "dda_body qualifies map_size ray_dir st =
     (let st1 = dda_walk ray_dir (st\<lparr>previous_tile := vMapCheck st\<rparr>)
      in if in_map map_size (vMapCheck st1) \<and> qualifies (vMapCheck st1)
         then st1\<lparr>bTileFound := True\<rparr> else st1)"

text \<open>The loop condition \<^verbatim>\<open>!bTileFound && fDistance < max_distance\<close>.\<close>

definition dda_continues :: "real \<Rightarrow> dda_state \<Rightarrow> bool" where
  "dda_continues max_distance st = (\<not> bTileFound st \<and> fless (fDistance st) (Fin max_distance))"

text \<open>
  The loop terminates for every finite \<^verbatim>\<open>max_distance\<close>: a unit step is at least 1, so
  the ray length of the axis walked grows by at least 1 in each iteration.
\<close>

fun remaining :: "real \<Rightarrow> fval \<Rightarrow> nat" where
  "remaining max_distance (Fin l) = nat \<lceil>max_distance - l\<rceil>"
| "remaining max_distance _ = 0"

definition dda_measure :: "real \<Rightarrow> dda_state \<Rightarrow> nat" where
  "dda_measure max_distance st =
     (if dda_continues max_distance st
      then 1 + remaining max_distance (fst (vRayLength1D st))
             + remaining max_distance (snd (vRayLength1D st))
      else 0)"

lemma ray_unit_step_ge1: "ray_unit_step n d = Fin s \<Longrightarrow> 1 \<le> s"
  by (auto simp add: ray_unit_step_def split: if_splits)

lemma remaining_fadd:
  assumes "ray_unit_step n d = u" and "l < max_distance"
  shows "remaining max_distance (fadd (Fin l) u) < remaining max_distance (Fin l)"
proof (cases u)
  case (Fin s)
  then have "1 \<le> s" using assms(1) ray_unit_step_ge1 by blast
  then have "\<lceil>max_distance - (l + s)\<rceil> \<le> \<lceil>max_distance - l - 1\<rceil>"
    by (intro ceiling_mono) simp
  also have "\<dots> = \<lceil>max_distance - l\<rceil> - 1" by simp
  finally have "\<lceil>max_distance - (l + s)\<rceil> < \<lceil>max_distance - l\<rceil>" by simp
  moreover have "0 < \<lceil>max_distance - l\<rceil>" using assms(2) by simp
  ultimately show ?thesis using Fin by simp
next
  case PInf
  have "0 < \<lceil>max_distance - l\<rceil>" using assms(2) by simp
  then show ?thesis using PInf by simp
next
  case NaN
  have "0 < \<lceil>max_distance - l\<rceil>" using assms(2) by simp
  then show ?thesis using NaN by simp
qed

lemma dda_measure_decreases:
  assumes "dda_continues max_distance st"
  shows "dda_measure max_distance (dda_body qualifies map_size ray_dir st)
           < dda_measure max_distance st"
proof (cases "dda_continues max_distance (dda_body qualifies map_size ray_dir st)")
  case False
  then show ?thesis using assms by (simp add: dda_measure_def)
next
  case True
  let ?lx = "fst (vRayLength1D st)" and ?ly = "snd (vRayLength1D st)"
  show ?thesis
  proof (cases "fless ?lx ?ly")
    case x: True
    from True x obtain l where l: "?lx = Fin l" "l < max_distance"
      by (cases ?lx) (auto simp add: dda_continues_def dda_body_def dda_walk_def Let_def split: if_splits)
    have "remaining max_distance (fadd (Fin l) (fst (vRayUnitStepSize ray_dir)))
            < remaining max_distance (Fin l)"
      using l(2) by (intro remaining_fadd [OF _ l(2)]) (simp add: vRayUnitStepSize_def)
    then show ?thesis
      using assms True x l
      by (simp add: dda_measure_def dda_body_def dda_walk_def Let_def)
  next
    case y: False
    from True y obtain l where l: "?ly = Fin l" "l < max_distance"
      by (cases ?ly) (auto simp add: dda_continues_def dda_body_def dda_walk_def Let_def split: if_splits)
    have "remaining max_distance (fadd (Fin l) (snd (vRayUnitStepSize ray_dir)))
            < remaining max_distance (Fin l)"
      using l(2) by (intro remaining_fadd [OF _ l(2)]) (simp add: vRayUnitStepSize_def)
    then show ?thesis
      using assms True y l
      by (simp add: dda_measure_def dda_body_def dda_walk_def Let_def)
  qed
qed

function dda_loop :: "(vi2d \<Rightarrow> bool) \<Rightarrow> vi2d \<Rightarrow> vf2d \<Rightarrow> real \<Rightarrow> dda_state \<Rightarrow> dda_state" where
  "dda_loop qualifies map_size ray_dir max_distance st =
     (if dda_continues max_distance st
      then dda_loop qualifies map_size ray_dir max_distance (dda_body qualifies map_size ray_dir st)
      else st)"
  by pat_completeness auto
termination
  by (relation "measure (\<lambda>(qualifies, map_size, ray_dir, max_distance, st). dda_measure max_distance st)")
     (simp_all add: dda_measure_decreases)

text \<open>The states the loop goes through, the starting state first.\<close>

function dda_trace :: "(vi2d \<Rightarrow> bool) \<Rightarrow> vi2d \<Rightarrow> vf2d \<Rightarrow> real \<Rightarrow> dda_state \<Rightarrow> dda_state list" where
  "dda_trace qualifies map_size ray_dir max_distance st =
     st # (if dda_continues max_distance st
           then dda_trace qualifies map_size ray_dir max_distance (dda_body qualifies map_size ray_dir st)
           else [])"
  by pat_completeness auto
termination
  by (relation "measure (\<lambda>(qualifies, map_size, ray_dir, max_distance, st). dda_measure max_distance st)")
     (simp_all add: dda_measure_decreases)

text \<open>The members of the application class that the raycasts and the brushes read or write.\<close>

record Example =
  map_size :: vi2d
  player_pos :: vf2d
  mouse_pos :: vf2d
  map_sprite :: Sprite
  blend_range :: int
  brush_size :: int
  raycast_max_distance :: real
  terraform_angle :: real
  terraform_raycast_step :: real

definition RaycastPixel_test :: "Example \<Rightarrow> vi2d \<Rightarrow> bool" where
  "RaycastPixel_test e pos = (MapLocationIsEmpty (map_sprite e) pos = False)"

definition RaycastPixelTarget_test :: "Example \<Rightarrow> vi2d \<Rightarrow> bool" where
  "RaycastPixelTarget_test e pos = (GetColourValue (map_sprite e) pos \<ge> 0.5)"

definition RaycastPixel :: "Example \<Rightarrow> vi2d \<Rightarrow> vf2d \<Rightarrow> real \<Rightarrow> bool \<times> vi2d" where
  "RaycastPixel e ray_start_pos ray_dir max_distance =
     (let st = dda_loop (RaycastPixel_test e) (map_size e) ray_dir max_distance
                 (dda_start ray_start_pos ray_dir);
          intersection_result = vMapCheck st
      in (bTileFound st, intersection_result))"

definition RaycastPrePixel :: "Example \<Rightarrow> vi2d \<Rightarrow> vf2d \<Rightarrow> real \<Rightarrow> bool \<times> vi2d" where
  "RaycastPrePixel e ray_start_pos ray_dir max_distance =
     (let st = dda_loop (RaycastPixel_test e) (map_size e) ray_dir max_distance
                 (dda_start ray_start_pos ray_dir);
          intersection_result =
            (if MapLocationIsFull (map_sprite e) (vMapCheck st) then previous_tile st
             else vMapCheck st)
      in (bTileFound st, intersection_result))"

definition RaycastPixelTarget :: "Example \<Rightarrow> vi2d \<Rightarrow> vf2d \<Rightarrow> real \<Rightarrow> bool \<times> vi2d" where
  "RaycastPixelTarget e ray_start_pos ray_dir max_distance =
     (let st = dda_loop (RaycastPixelTarget_test e) (map_size e) ray_dir max_distance
                 (dda_start ray_start_pos ray_dir);
          intersection_result = vMapCheck st
      in (bTileFound st, intersection_result))"

text \<open>The cells the walk visits, the cell of the ray origin first.\<close>

definition visited :: "(vi2d \<Rightarrow> bool) \<Rightarrow> vi2d \<Rightarrow> vf2d \<Rightarrow> real \<Rightarrow> vi2d \<Rightarrow> vi2d list" where
  "visited qualifies bounds ray_dir max_distance ray_start_pos =
     map vMapCheck (dda_trace qualifies bounds ray_dir max_distance (dda_start ray_start_pos ray_dir))"

text \<open>The member initialisers of the class, for a given terrain.\<close>

definition initial_Example :: "Sprite \<Rightarrow> Example" where
  "initial_Example m =
     \<lparr>map_size = (512, 512), player_pos = (256, 256), mouse_pos = (0, 0), map_sprite = m,
      blend_range = 15, brush_size = 16, raycast_max_distance = 500,
      terraform_angle = 50, terraform_raycast_step = 0.5\<rparr>"

text \<open>A 512 by 512 terrain, empty but for one cell.\<close>

definition single_cell_grid :: "vi2d \<Rightarrow> Pixel \<Rightarrow> Sprite" where
  "single_cell_grid pos p =
     \<lparr>width = 512, height = 512, pColData = (\<lambda>q. if q = pos then p else BLACK)\<rparr>"

section \<open>Cone sweeps\<close>

text \<open>
  \<^verbatim>\<open>mag\<close> and \<^verbatim>\<open>norm\<close> of \<^verbatim>\<open>olc::v2d_generic\<close>, and the conversion of a float vector to an
  integer vector. Every brush recomputes the aim direction and the maximal ray distance from
  the player and mouse positions.
\<close>

definition mag :: "vf2d \<Rightarrow> real" where
  "mag v = sqrt (fst v * fst v + snd v * snd v)"

definition norm_vf2d :: "vf2d \<Rightarrow> vf2d" where
  "norm_vf2d v = (let rr = 1 / mag v in (fst v * rr, snd v * rr))"

definition vf2d_to_vi2d :: "vf2d \<Rightarrow> vi2d" where
  "vf2d_to_vi2d v = (float_to_int (fst v), float_to_int (snd v))"

definition aim_dir :: "Example \<Rightarrow> vf2d" where
  "aim_dir e = norm_vf2d (fst (mouse_pos e) - fst (player_pos e), snd (mouse_pos e) - snd (player_pos e))"

definition aim_max_distance :: "Example \<Rightarrow> real" where
  "aim_max_distance e =
     min (raycast_max_distance e)
       (mag (fst (mouse_pos e) - fst (player_pos e), snd (mouse_pos e) - snd (player_pos e)))"

text \<open>
  Single-precision addition, for the loop variable of the sweeps: the exact sum rounded to the
  nearest value of the form m * 2^(e - 23) with e the binary exponent of the sum (at least
  -126), ties to the even m. A sum beyond the largest finite value is not turned into an
  infinity; it is above every finite cone angle either way.
\<close>

definition pow2 :: "int \<Rightarrow> real" where
  "pow2 e = (if 0 \<le> e then 2 ^ nat e else 1 / 2 ^ nat (- e))"

definition round_even :: "real \<Rightarrow> int" where
  "round_even y =
     (let f = \<lfloor>y\<rfloor>; d = y - of_int f
      in if d < 1 / 2 then f else if 1 / 2 < d then f + 1 else if even f then f else f + 1)"

definition float_ulp :: "real \<Rightarrow> real" where
  "float_ulp x = pow2 (max \<lfloor>log 2 \<bar>x\<bar>\<rfloor> (- 126) - 23)"

definition float_round :: "real \<Rightarrow> real" where
  "float_round x = of_int (round_even (x / float_ulp x)) * float_ulp x"

definition float_add :: "real \<Rightarrow> real \<Rightarrow> real" where
  "float_add x y = float_round (x + y)"

text \<open>
  The values the loop variable of \<^verbatim>\<open>for (float i = -cone_angle; i <= cone_angle; i += step)\<close>
  takes, in order. A loop that never ends answers \<open>None\<close>.
\<close>

partial_function (option) sweep_angles :: "real \<Rightarrow> real \<Rightarrow> real \<Rightarrow> real list option" where
  "sweep_angles i cone_angle step =
     (if i \<le> cone_angle
      then Option.bind (sweep_angles (float_add i step) cone_angle step) (\<lambda>rest. Some (i # rest))
      else Some [])"

definition gauss_value :: "real \<Rightarrow> real \<Rightarrow> real" where
  "gauss_value cone_angle i =
     (let mapped = (if i < 0 then MapValue i (- cone_angle) 0 (- 1) 0
                    else MapValue i 0 cone_angle 0 1)
      in GaussianCurve mapped - 0.3)"

text \<open>
  One iteration of a sweep. The second component lists the directions of the rays cast so
  far; it is not a variable of the program.
\<close>

definition Destruct_ray :: "real \<Rightarrow> Example \<times> vf2d list \<Rightarrow> Example \<times> vf2d list" where
  "Destruct_ray i acc =
     (let e = fst acc;
          rotated_dir = RotateVector (aim_dir e) (AngleToRadians i);
          cast = RaycastPixel e (vf2d_to_vi2d (player_pos e)) rotated_dir (aim_max_distance e);
          rays = snd acc @ [rotated_dir]
      in if fst cast = False then (e, rays)
         else (e\<lparr>map_sprite := SubtractValueFromColour (map_sprite e) (snd cast)
                                  (gauss_value (terraform_angle e) i)\<rparr>, rays))"

definition Restore_ray :: "real \<Rightarrow> Example \<times> vf2d list \<Rightarrow> Example \<times> vf2d list" where
  "Restore_ray i acc =
     (let e = fst acc;
          rotated_dir = RotateVector (aim_dir e) (AngleToRadians i);
          cast = RaycastPrePixel e (vf2d_to_vi2d (player_pos e)) rotated_dir (aim_max_distance e);
          rays = snd acc @ [rotated_dir]
      in if fst cast = False then (e, rays)
         else (e\<lparr>map_sprite := AddValueToColour (map_sprite e) (snd cast)
                                  (gauss_value (terraform_angle e) i)\<rparr>, rays))"

definition DestructTerrain_GaussFractional :: "Example \<Rightarrow> (Example \<times> vf2d list) option" where
  "DestructTerrain_GaussFractional e =
     (let cone_angle = terraform_angle e; step = terraform_raycast_step e
      in map_option (\<lambda>angles. fold Destruct_ray angles (e, []))
           (sweep_angles (- cone_angle) cone_angle step))"

definition RestoreTerrain_GaussFractional :: "Example \<Rightarrow> (Example \<times> vf2d list) option" where
  "RestoreTerrain_GaussFractional e =
     (let cone_angle = terraform_angle e; step = terraform_raycast_step e
      in map_option (\<lambda>angles. fold Restore_ray angles (e, []))
           (sweep_angles (- cone_angle) cone_angle step))"

section \<open>The CircleFull stamp\<close>




section \<open>The scratch buffer and the BlendBall brushes\<close>

text \<open>
  \<^verbatim>\<open>BlockBuffer<float>\<close>. The C++ accessors index the vector with an unchecked flat index.
  The model makes the contract of the window explicit: \<open>BlockBuffer_set\<close> and
  \<open>BlockBuffer_get\<close> answer \<open>None\<close> for coordinates outside the inclusive window the buffer
  was constructed with, and a brush that meets such an access answers \<open>None\<close>.
\<close>

record BlockBuffer =
  buffer :: "real list"
  x_offset :: int
  y_offset :: int
  x_size :: int
  y_size :: int

definition BlockBuffer_new :: "vi2d \<Rightarrow> vi2d \<Rightarrow> BlockBuffer" where
  "BlockBuffer_new from to =
     (let xs = fst to - fst from + 1; ys = snd to - snd from + 1
      in \<lparr>buffer = replicate (nat (xs * ys)) 0, x_offset = fst from, y_offset = snd from,
          x_size = xs, y_size = ys\<rparr>)"

definition get_index :: "BlockBuffer \<Rightarrow> int \<Rightarrow> int \<Rightarrow> int" where
  "get_index bb x y = (y - y_offset bb) * x_size bb + (x - x_offset bb)"

definition in_window :: "BlockBuffer \<Rightarrow> int \<Rightarrow> int \<Rightarrow> bool" where
  "in_window bb x y =
     (x_offset bb \<le> x \<and> x < x_offset bb + x_size bb \<and> y_offset bb \<le> y \<and> y < y_offset bb + y_size bb)"

definition BlockBuffer_set :: "BlockBuffer \<Rightarrow> int \<Rightarrow> int \<Rightarrow> real \<Rightarrow> BlockBuffer option" where
  "BlockBuffer_set bb x y v =
     (if in_window bb x y
      then (let index = get_index bb x y in Some (bb\<lparr>buffer := (buffer bb)[nat index := v]\<rparr>))
      else None)"

definition BlockBuffer_get :: "BlockBuffer \<Rightarrow> int \<Rightarrow> int \<Rightarrow> real option" where
  "BlockBuffer_get bb x y =
     (if in_window bb x y then Some (buffer bb ! nat (get_index bb x y)) else None)"

text \<open>
  \<^verbatim>\<open>AdjustTerrain_BlendBallFractional\<close>, for a given hit cell: \<open>blend_sums\<close> are the two
  innermost loops, \<open>blend_cell\<close> is the value staged for one cell of the window,
  \<open>blend_fill\<close> the first pair of loops and \<open>blend_apply\<close> the commit pass.
\<close>

definition blend_sums :: "Sprite \<Rightarrow> int \<Rightarrow> int \<Rightarrow> int \<Rightarrow> real \<times> real" where
  "blend_sums m blend_rng x0 y0 =
     fold (\<lambda>ox. fold (\<lambda>oy (max_sum_weighted, colour_sum_weighted).
             (max_sum_weighted + 1, colour_sum_weighted + GetColourValue m (x0 + ox, y0 + oy)))
           [- blend_rng..blend_rng])
       [- blend_rng..blend_rng] (0, 0)"

definition blend_cell :: "Sprite \<Rightarrow> int \<Rightarrow> int \<Rightarrow> int \<Rightarrow> int \<Rightarrow> int \<Rightarrow> int \<Rightarrow> real" where
  "blend_cell m brush blend_rng tx ty x y =
     (let x0 = x + tx; y0 = y + ty;
          brush_size_squared = real_of_int (brush * brush);
          distance = real_of_int (x * x + y * y)
      in if distance \<ge> brush_size_squared then GetColourValue m (x0, y0)
         else (let tbl = blend_sums m blend_rng x0 y0;
                   average = EaseInOutCubic (snd tbl / fst tbl);
                   curr_voxel_value = GetColourValue m (x0, y0);
                   distance_normalised = max (distance / brush_size_squared * 2 - 1) 0
               in curr_voxel_value * distance_normalised + average * (1 - distance_normalised)))"

definition blend_fill :: "Sprite \<Rightarrow> int \<Rightarrow> int \<Rightarrow> int \<Rightarrow> int \<Rightarrow> BlockBuffer option" where
  "blend_fill m brush blend_rng tx ty =
     fold (\<lambda>x. fold (\<lambda>y buf. Option.bind buf
                   (\<lambda>bb. BlockBuffer_set bb x y (blend_cell m brush blend_rng tx ty x y)))
             [- brush..brush])
       [- brush..brush] (Some (BlockBuffer_new (- brush, - brush) (brush, brush)))"

definition blend_apply :: "BlockBuffer \<Rightarrow> int \<Rightarrow> int \<Rightarrow> int \<Rightarrow> Sprite \<Rightarrow> Sprite option" where
  "blend_apply bb brush tx ty m =
     fold (\<lambda>x. fold (\<lambda>y acc. Option.bind acc
                   (\<lambda>m1. map_option (SetColourValue m1 (x + tx, y + ty)) (BlockBuffer_get bb x y)))
             [- brush..brush])
       [- brush..brush] (Some m)"

definition BlendBallFractional_at :: "Sprite \<Rightarrow> int \<Rightarrow> int \<Rightarrow> vi2d \<Rightarrow> Sprite option" where
  "BlendBallFractional_at m brush blend_rng hit =
     (let tx = fst hit; ty = snd hit
      in Option.bind (blend_fill m brush blend_rng tx ty) (\<lambda>bb. blend_apply bb brush tx ty m))"

definition AdjustTerrain_BlendBallFractional :: "Example \<Rightarrow> Example option" where
  "AdjustTerrain_BlendBallFractional e =
     (let cast = RaycastPixel e (vf2d_to_vi2d (player_pos e)) (aim_dir e) (aim_max_distance e)
      in if \<not> fst cast then Some e
         else map_option (\<lambda>m. e\<lparr>map_sprite := m\<rparr>)
                (BlendBallFractional_at (map_sprite e) (brush_size e) (blend_range e) (snd cast)))"

text \<open>
  \<^verbatim>\<open>AdjustTerrain_BlendBallFractionalFast2\<close>: a horizontal and a vertical sliding-window
  pass over the scratch buffer, then the blend. The queue of buffered values is a list:
  push appends, front is the head, pop drops the head.
\<close>

definition xblur_step :: "Sprite \<Rightarrow> int \<Rightarrow> int \<Rightarrow> int \<Rightarrow> int \<Rightarrow> int \<Rightarrow> real \<Rightarrow> int
    \<Rightarrow> real \<times> real list \<times> BlockBuffer option \<Rightarrow> real \<times> real list \<times> BlockBuffer option" where
  "xblur_step m brush blend_rng brush_pos_x y y0 total_blend_elements x st =
     (case st of (colour_sum, buffered_values, buf) \<Rightarrow>
        (let x0 = x + brush_pos_x;
             (colour_sum, buffered_values) =
               (if x = - brush
                then fold (\<lambda>ox (colour_sum, buffered_values).
                       (let val = GetColourValue m (x0 + ox, y0)
                        in (colour_sum + val, buffered_values @ [val])))
                       [- blend_rng..blend_rng] (colour_sum, buffered_values)
                else (let val = GetColourValue m (x0 + blend_rng, y0);
                          pushed = buffered_values @ [val]
                      in (colour_sum + val - hd pushed, tl pushed)));
             average = colour_sum / total_blend_elements
         in (colour_sum, buffered_values,
             Option.bind buf (\<lambda>bb. BlockBuffer_set bb x y average))))"

definition xblur_row :: "Sprite \<Rightarrow> int \<Rightarrow> int \<Rightarrow> int \<Rightarrow> int \<Rightarrow> int
    \<Rightarrow> BlockBuffer option \<Rightarrow> BlockBuffer option" where
  "xblur_row m brush blend_rng brush_pos_x brush_pos_y y buf =
     (let y0 = y + brush_pos_y;
          total_blend_elements = real_of_int (2 * blend_rng + 1)
      in snd (snd (fold (xblur_step m brush blend_rng brush_pos_x y y0 total_blend_elements)
                     [- brush..brush] (0, [], buf))))"

definition yblur_step :: "int \<Rightarrow> int \<Rightarrow> int \<Rightarrow> real \<Rightarrow> int
    \<Rightarrow> (real \<times> real list \<times> BlockBuffer) option \<Rightarrow> (real \<times> real list \<times> BlockBuffer) option" where
  "yblur_step brush blend_rng x total_blend_elements y st =
     Option.bind st (\<lambda>(colour_sum, buffered_values, bb).
       Option.bind
         (if y = - brush
          then fold (\<lambda>oy acc. Option.bind acc (\<lambda>(colour_sum, buffered_values).
                      map_option (\<lambda>val. (colour_sum + val, buffered_values @ [val]))
                        (BlockBuffer_get bb x (y + oy))))
                 [- blend_rng..blend_rng] (Some (colour_sum, buffered_values))
          else map_option (\<lambda>val. (let pushed = buffered_values @ [val]
                                    in (colour_sum + val - hd pushed, tl pushed)))
                 (BlockBuffer_get bb x (y + blend_rng)))
         (\<lambda>(colour_sum, buffered_values).
            (let average = colour_sum / total_blend_elements
             in map_option (\<lambda>bb1. (colour_sum, buffered_values, bb1))
                  (BlockBuffer_set bb x y average))))"

definition yblur_column :: "int \<Rightarrow> int \<Rightarrow> int \<Rightarrow> BlockBuffer option \<Rightarrow> BlockBuffer option" where
  "yblur_column brush blend_rng x buf =
     (let total_blend_elements = real_of_int (2 * blend_rng + 1)
      in map_option (\<lambda>st. snd (snd st))
           (fold (yblur_step brush blend_rng x total_blend_elements)
              [- brush..brush] (map_option (\<lambda>bb. (0, [], bb)) buf)))"

definition paste_cell :: "BlockBuffer \<Rightarrow> int \<Rightarrow> int \<Rightarrow> int \<Rightarrow> int \<Rightarrow> int
    \<Rightarrow> Sprite option \<Rightarrow> Sprite option" where
  "paste_cell bb brush brush_pos_x brush_pos_y x y acc =
     (let x0 = x + brush_pos_x; y0 = y + brush_pos_y;
          brush_size_squared = brush * brush;
          distance = x * x + y * y
      in if distance \<ge> brush_size_squared then acc
         else Option.bind acc (\<lambda>m. Option.bind (BlockBuffer_get bb x y) (\<lambda>average.
                (let average = EaseInOutCubic average;
                     curr_voxel_value = GetColourValue m (x0, y0);
                     distance_normalised = real_of_int distance / real_of_int brush_size_squared;
                     distance_normalised = max (distance_normalised * 2 - 1) 0;
                     new_voxel_value = Lerp average curr_voxel_value distance_normalised
                 in Some (SetColourValue m (x0, y0) new_voxel_value)))))"

definition BlendBallFractionalFast2_at :: "Sprite \<Rightarrow> int \<Rightarrow> int \<Rightarrow> vi2d \<Rightarrow> Sprite option" where
  "BlendBallFractionalFast2_at m brush blend_rng hit =
     (let extended_brush_size = brush + blend_rng;
          buf0 = BlockBuffer_new (- extended_brush_size, - extended_brush_size)
                   (extended_brush_size, extended_brush_size);
          brush_pos_x = fst hit; brush_pos_y = snd hit;
          buf1 = fold (xblur_row m brush blend_rng brush_pos_x brush_pos_y)
                   [- extended_brush_size..extended_brush_size] (Some buf0);
          buf2 = fold (yblur_column brush blend_rng) [- brush..brush] buf1
      in Option.bind buf2 (\<lambda>bb.
           fold (\<lambda>x. fold (paste_cell bb brush brush_pos_x brush_pos_y x) [- brush..brush])
             [- brush..brush] (Some m)))"

definition AdjustTerrain_BlendBallFractionalFast2 :: "Example \<Rightarrow> Example option" where
  "AdjustTerrain_BlendBallFractionalFast2 e =
     (let cast = RaycastPixel e (vf2d_to_vi2d (player_pos e)) (aim_dir e) (aim_max_distance e)
      in if \<not> fst cast then Some e
         else map_option (\<lambda>m. e\<lparr>map_sprite := m\<rparr>)
                (BlendBallFractionalFast2_at (map_sprite e) (brush_size e) (blend_range e) (snd cast)))"

text \<open>
  \<^verbatim>\<open>AdjustTerrain_BlendBallFractionalFast\<close>: a summed-area table over the brush region.
  It uses its own local blend range 5 and writes every cell of the region directly. A read
  or write of the table outside the vector answers \<open>None\<close>.
\<close>

definition sums_get :: "real list \<Rightarrow> int \<Rightarrow> real option" where
  "sums_get tbl i = (if 0 \<le> i \<and> i < int (length tbl) then Some (tbl ! nat i) else None)"

definition sums_put :: "real list \<Rightarrow> int \<Rightarrow> real \<Rightarrow> real list option" where
  "sums_put tbl i v = (if 0 \<le> i \<and> i < int (length tbl) then Some (tbl[nat i := v]) else None)"

definition sat_cell :: "Sprite \<Rightarrow> int \<Rightarrow> int \<Rightarrow> int \<Rightarrow> int \<Rightarrow> int \<Rightarrow> int
    \<Rightarrow> (real list \<times> int) option \<Rightarrow> (real list \<times> int) option" where
  "sat_cell m brush_region_half brush_region_size tx ty y x st =
     Option.bind st (\<lambda>(tbl, i).
       (let dy = y - brush_region_half; y0 = ty + dy;
            dx = x - brush_region_half; x0 = tx + dx;
            sum0 = GetColourValue m (x0, y0)
        in Option.bind (if x > 0 then map_option (\<lambda>v. sum0 + v) (sums_get tbl (i - 1))
                        else Some sum0) (\<lambda>sum1.
           Option.bind (if y > 0 then map_option (\<lambda>v. sum1 + v) (sums_get tbl (i - brush_region_size))
                        else Some sum1) (\<lambda>sum2.
           Option.bind (if x > 0 \<and> y > 0
                        then map_option (\<lambda>v. sum2 - v) (sums_get tbl (i - (brush_region_size + 1)))
                        else Some sum2) (\<lambda>sum3.
           map_option (\<lambda>tbl1. (tbl1, i + 1)) (sums_put tbl i sum3))))))"

definition sat_build :: "Sprite \<Rightarrow> int \<Rightarrow> int \<Rightarrow> int \<Rightarrow> int \<Rightarrow> real list option" where
  "sat_build m brush_region_half brush_region_size tx ty =
     map_option fst
       (fold (\<lambda>y. fold (sat_cell m brush_region_half brush_region_size tx ty y)
                    [0..brush_region_size - 1])
          [0..brush_region_size - 1]
          (Some (replicate (nat (brush_region_size * brush_region_size)) 0, 0)))"

definition sat_average :: "real list \<Rightarrow> int \<Rightarrow> int \<Rightarrow> int \<Rightarrow> int \<Rightarrow> real option" where
  "sat_average tbl blend_rng brush_region_size x y =
     (let ymin = max (y - blend_rng) 0 - 1;
          ymax = min (y + blend_rng) (brush_region_size - 1);
          xmin = max (x - blend_rng) 0 - 1;
          xmax = min (x + blend_rng) (brush_region_size - 1);
          area = real_of_int ((xmax - xmin) * (ymax - ymin))
      in Option.bind (if xmin < 0 \<or> ymin < 0 then Some 0
                      else sums_get tbl (ymin * brush_region_size + xmin)) (\<lambda>a.
         Option.bind (if ymin < 0 then Some 0
                      else sums_get tbl (ymin * brush_region_size + xmax)) (\<lambda>b.
         Option.bind (if xmin < 0 then Some 0
                      else sums_get tbl (ymax * brush_region_size + xmin)) (\<lambda>c.
         Option.bind (sums_get tbl (ymax * brush_region_size + xmax)) (\<lambda>d.
           (let sum = (d + a) - (b + c) in Some (EaseInOutCubic (sum / area))))))))"

definition sat_apply_cell :: "real list \<Rightarrow> int \<Rightarrow> int \<Rightarrow> int \<Rightarrow> int \<Rightarrow> int \<Rightarrow> int \<Rightarrow> int \<Rightarrow> int
    \<Rightarrow> Sprite option \<Rightarrow> Sprite option" where
  "sat_apply_cell tbl brush blend_rng brush_region_half brush_region_size tx ty y x acc =
     Option.bind acc (\<lambda>m.
       (let dy = y - brush_region_half; y0 = ty + dy;
            dx = x - brush_region_half; x0 = tx + dx;
            brush_size_squared = real_of_int (brush * brush)
        in Option.bind (sat_average tbl blend_rng brush_region_size x y) (\<lambda>average.
             (let distance = real_of_int (dx * dx + dy * dy);
                  distance_normalised = 1 - distance / brush_size_squared;
                  distance_normalised = max (distance_normalised * 2 - 1) 0;
                  pos = (x0, y0);
                  cur_voxel_value = GetColourValue m pos;
                  new_voxel_value = Lerp cur_voxel_value average distance_normalised
              in Some (SetColourValue m pos new_voxel_value)))))"

definition BlendBallFractionalFast_at :: "Sprite \<Rightarrow> int \<Rightarrow> vi2d \<Rightarrow> Sprite option" where
  "BlendBallFractionalFast_at m brush hit =
     (let tx = fst hit; ty = snd hit;
          blend_rng = 5;
          brush_region_half = brush + blend_rng;
          brush_region_size = 2 * brush_region_half + 1
      in Option.bind (sat_build m brush_region_half brush_region_size tx ty) (\<lambda>tbl.
           fold (\<lambda>y. fold (sat_apply_cell tbl brush blend_rng brush_region_half brush_region_size tx ty y)
                        [0..brush_region_size - 1])
             [0..brush_region_size - 1] (Some m)))"

definition AdjustTerrain_BlendBallFractionalFast :: "Example \<Rightarrow> Example option" where
  "AdjustTerrain_BlendBallFractionalFast e =
     (let cast = RaycastPixel e (vf2d_to_vi2d (player_pos e)) (aim_dir e) (aim_max_distance e)
      in if \<not> fst cast then Some e
         else map_option (\<lambda>m. e\<lparr>map_sprite := m\<rparr>)
                (BlendBallFractionalFast_at (map_sprite e) (brush_size e) (snd cast)))"

section \<open>Notions used in the statements and proofs\<close>

text \<open>Progress along the ray: each step moves one cell in the fixed direction of one axis.\<close>

definition progress :: "vi2d \<Rightarrow> vf2d \<Rightarrow> vi2d \<Rightarrow> int" where
  "progress ray_start_pos ray_dir pos =
     (fst pos - fst ray_start_pos) * fst (vStep ray_dir)
     + (snd pos - snd ray_start_pos) * snd (vStep ray_dir)"

text \<open>
  The number of rays a sweep casts, when it returns.
\<close>

definition rays_cast :: "(Example \<times> vf2d list) option \<Rightarrow> nat option" where
  "rays_cast res = map_option (\<lambda>r. length (snd r)) res"

text \<open>
  A sweep of half-angle 32 and step 11184811 / 2^19 (about 21.33), both single-precision
  values.
\<close>

definition coarse_sweep :: Example where
  "coarse_sweep = (initial_Example (single_cell_grid (3, 5) WHITE))
     \<lparr>terraform_angle := 32, terraform_raycast_step := 11184811 / 524288\<rparr>"

text \<open>A sweep of the shipped half-angle 50 with the step 2^-20.\<close>

definition fine_sweep :: Example where
  "fine_sweep = (initial_Example (single_cell_grid (3, 5) WHITE))
     \<lparr>terraform_raycast_step := 1 / 1048576\<rparr>"

text \<open>
  A buffer is well formed when its vector holds \<open>x_size * y_size\<close> values.
\<close>

definition bb_wf :: "BlockBuffer \<Rightarrow> bool" where
  "bb_wf bb = (0 \<le> x_size bb \<and> 0 \<le> y_size bb \<and> length (buffer bb) = nat (x_size bb * y_size bb))"

text \<open>Two buffers over the same window, with vectors of the same length.\<close>

definition same_shape :: "BlockBuffer \<Rightarrow> BlockBuffer \<Rightarrow> bool" where
  "same_shape bb bb' =
     (x_offset bb' = x_offset bb \<and> y_offset bb' = y_offset bb \<and> x_size bb' = x_size bb
      \<and> y_size bb' = y_size bb \<and> length (buffer bb') = length (buffer bb))"

text \<open>
  The value a buffer holds for the coordinates \<open>(x, y)\<close>, read without the window check.
\<close>

definition bb_val :: "BlockBuffer \<Rightarrow> int \<Rightarrow> int \<Rightarrow> real" where
  "bb_val bb x y = buffer bb ! nat (get_index bb x y)"

text \<open>
  The buffer with the value for the coordinates \<open>(x, y)\<close> replaced, without the window check.
\<close>

definition bb_upd :: "BlockBuffer \<Rightarrow> int \<Rightarrow> int \<Rightarrow> real \<Rightarrow> BlockBuffer" where
  "bb_upd bb x y v = bb\<lparr>buffer := (buffer bb)[nat (get_index bb x y) := v]\<rparr>"

text \<open>
  The buffer after the cells \<open>ps\<close> have been given the values \<open>c p\<close>, in order.
\<close>

definition bb_fill :: "BlockBuffer \<Rightarrow> vi2d list \<Rightarrow> (vi2d \<Rightarrow> real) \<Rightarrow> BlockBuffer" where
  "bb_fill bb ps c = fold (\<lambda>p b1. bb_upd b1 (fst p) (snd p) (c p)) ps bb"

text \<open>
  One write of a pass over the grid: unless \<open>skip p\<close> holds, the cell \<open>pos p\<close> is given the
  value \<open>h p\<close> computes from its current density.
\<close>

definition sprite_upd :: "('p \<Rightarrow> bool) \<Rightarrow> ('p \<Rightarrow> vi2d) \<Rightarrow> ('p \<Rightarrow> real \<Rightarrow> real) \<Rightarrow> 'p \<Rightarrow> Sprite \<Rightarrow> Sprite" where
  "sprite_upd skip pos h p m =
     (if skip p then m else SetColourValue m (pos p) (h p (GetColourValue m (pos p))))"

text \<open>
  The offsets \<open>(x, y)\<close> of a window of half-width \<open>w\<close>, in the order of the nested loops.
\<close>

definition square :: "int \<Rightarrow> vi2d list" where
  "square w = List.product [- w..w] [- w..w]"

text \<open>The cell at an offset from the hit cell \<open>(tx, ty)\<close>.\<close>

definition offset_by :: "int \<Rightarrow> int \<Rightarrow> vi2d \<Rightarrow> vi2d" where
  "offset_by tx ty p = (fst p + tx, snd p + ty)"

text \<open>
  The grid the naive BlendBall leaves: every cell of the window receives its staged value.
\<close>

definition naive_result :: "Sprite \<Rightarrow> int \<Rightarrow> int \<Rightarrow> int \<Rightarrow> int \<Rightarrow> Sprite" where
  "naive_result m brush blend_rng tx ty =
     fold (sprite_upd (\<lambda>p. False) (offset_by tx ty)
             (\<lambda>p cur. blend_cell m brush blend_rng tx ty (fst p) (snd p)))
       (square brush) m"

text \<open>
  The samples of \<open>f\<close> at the positions \<open>x - k\<close> to \<open>x + k\<close>.
\<close>

definition win :: "(int \<Rightarrow> real) \<Rightarrow> int \<Rightarrow> int \<Rightarrow> real list" where
  "win f k x = map f [x - k..x + k]"

text \<open>
  The cells of the row \<open>y\<close>, and of the column \<open>x\<close>, between two bounds.
\<close>

definition row_of :: "int \<Rightarrow> int \<Rightarrow> int \<Rightarrow> vi2d list" where
  "row_of y i j = map (\<lambda>x. (x, y)) [i..j]"

definition column_of :: "int \<Rightarrow> int \<Rightarrow> int \<Rightarrow> vi2d list" where
  "column_of x i j = map (\<lambda>y. (x, y)) [i..j]"

text \<open>
  The average of the densities of the grid over the horizontal window around the offset
  \<open>(x, y)\<close>.
\<close>

definition rowavg :: "Sprite \<Rightarrow> int \<Rightarrow> int \<Rightarrow> int \<Rightarrow> int \<Rightarrow> int \<Rightarrow> real" where
  "rowavg m blend_rng brush_pos_x brush_pos_y x y =
     sum_list (win (\<lambda>t. GetColourValue m (t + brush_pos_x, y + brush_pos_y)) blend_rng x)
       / real_of_int (2 * blend_rng + 1)"

text \<open>
  The average of the values of a buffer over the vertical window around \<open>(x, y)\<close>.
\<close>

definition colavg :: "BlockBuffer \<Rightarrow> int \<Rightarrow> int \<Rightarrow> int \<Rightarrow> real" where
  "colavg bb blend_rng x y =
     sum_list (win (\<lambda>t. bb_val bb x t) blend_rng y) / real_of_int (2 * blend_rng + 1)"

text \<open>The cells the horizontal pass fills, row by row.\<close>

definition blur_rows :: "int \<Rightarrow> int \<Rightarrow> vi2d list" where
  "blur_rows brush ext = concat (map (\<lambda>y. row_of y (- brush) brush) [- ext..ext])"

text \<open>
  The test \<^verbatim>\<open>distance >= brush_size_squared\<close> on an offset, and the blend weight
  \<^verbatim>\<open>max(distance / brush_size_squared * 2 - 1, 0)\<close> of the naive and the separable BlendBall.
\<close>

definition outside_brush :: "int \<Rightarrow> vi2d \<Rightarrow> bool" where
  "outside_brush brush p = (fst p * fst p + snd p * snd p \<ge> brush * brush)"

definition blend_weight :: "int \<Rightarrow> vi2d \<Rightarrow> real" where
  "blend_weight brush p =
     max (real_of_int (fst p * fst p + snd p * snd p) / real_of_int (brush * brush) * 2 - 1) 0"

text \<open>The average over the vertical window of the horizontal window averages.\<close>

definition box2 :: "Sprite \<Rightarrow> int \<Rightarrow> int \<Rightarrow> int \<Rightarrow> int \<Rightarrow> int \<Rightarrow> real" where
  "box2 m k px py x y =
     sum_list (win (\<lambda>t. rowavg m k px py x t) k y) / real_of_int (2 * k + 1)"

text \<open>
  The grid the separable BlendBall leaves: every cell of the window within the brush is
  blended towards the eased average of the two passes.
\<close>

definition fast2_result :: "Sprite \<Rightarrow> int \<Rightarrow> int \<Rightarrow> int \<Rightarrow> int \<Rightarrow> Sprite" where
  "fast2_result m brush k tx ty =
     fold (sprite_upd (outside_brush brush) (offset_by tx ty)
             (\<lambda>p cur. Lerp (EaseInOutCubic (box2 m k tx ty (fst p) (snd p))) cur (blend_weight brush p)))
       (square brush) m"

text \<open>The value the table-building loop stores for the cell \<open>(x, y)\<close> of the region.\<close>

definition sat_entry :: "Sprite \<Rightarrow> int \<Rightarrow> int \<Rightarrow> int \<Rightarrow> int \<Rightarrow> real list \<Rightarrow> int \<Rightarrow> int \<Rightarrow> real" where
  "sat_entry m half n tx ty tbl y x =
     GetColourValue m (tx + (x - half), ty + (y - half))
     + (if x > 0 then tbl ! nat (y * n + x - 1) else 0)
     + (if y > 0 then tbl ! nat (y * n + x - n) else 0)
     - (if x > 0 \<and> y > 0 then tbl ! nat (y * n + x - (n + 1)) else 0)"

text \<open>
  The eased window average that \<open>sat_average\<close> reads off a table, without the bounds checks.
\<close>

definition sat_mean :: "real list \<Rightarrow> int \<Rightarrow> int \<Rightarrow> int \<Rightarrow> int \<Rightarrow> real" where
  "sat_mean tbl k n x y =
     (let ymin = max (y - k) 0 - 1; ymax = min (y + k) (n - 1);
          xmin = max (x - k) 0 - 1; xmax = min (x + k) (n - 1);
          area = real_of_int ((xmax - xmin) * (ymax - ymin));
          va = (if xmin < 0 \<or> ymin < 0 then 0 else tbl ! nat (ymin * n + xmin));
          vb = (if ymin < 0 then 0 else tbl ! nat (ymin * n + xmax));
          vc = (if xmin < 0 then 0 else tbl ! nat (ymax * n + xmin));
          vd = tbl ! nat (ymax * n + xmax)
      in EaseInOutCubic (((vd + va) - (vb + vc)) / area))"

text \<open>
  The cell of the grid for the pair \<open>(y, x)\<close> of region indices, and the blend weight
  \<^verbatim>\<open>max((1 - distance / brush_size_squared) * 2 - 1, 0)\<close> of the table variant.
\<close>

definition region_pos :: "int \<Rightarrow> int \<Rightarrow> int \<Rightarrow> vi2d \<Rightarrow> vi2d" where
  "region_pos half tx ty p = (tx + (snd p - half), ty + (fst p - half))"

definition sat_weight :: "int \<Rightarrow> int \<Rightarrow> vi2d \<Rightarrow> real" where
  "sat_weight brush half p =
     max ((1 - real_of_int ((snd p - half) * (snd p - half) + (fst p - half) * (fst p - half))
                / real_of_int (brush * brush)) * 2 - 1) 0"

text \<open>
  The grid the table variant leaves for a given table: every cell of the region is blended
  from its density towards the eased average, with the weight above.
\<close>

definition fast_result :: "Sprite \<Rightarrow> int \<Rightarrow> int \<Rightarrow> int \<Rightarrow> real list \<Rightarrow> Sprite" where
  "fast_result m brush tx ty tbl =
     fold (sprite_upd (\<lambda>p. False) (region_pos (brush + 5) tx ty)
             (\<lambda>p cur. Lerp cur (sat_mean tbl 5 (2 * (brush + 5) + 1) (snd p) (fst p))
                        (sat_weight brush (brush + 5) p)))
       (List.product [0..2 * (brush + 5)] [0..2 * (brush + 5)]) m"

text \<open>
  The sum of the densities of the grid over the square window around the offset \<open>(x, y)\<close>.
\<close>

definition boxsum :: "Sprite \<Rightarrow> int \<Rightarrow> int \<Rightarrow> int \<Rightarrow> int \<Rightarrow> int \<Rightarrow> real" where
  "boxsum m k tx ty x y =
     sum_list (map (\<lambda>s. sum_list (map (\<lambda>t. GetColourValue m (s + tx, t + ty)) [y - k..y + k]))
                 [x - k..x + k])"




section \<open>Density accessors\<close>

lemma clamp_unit: "0 \<le> clamp v 0 1 \<and> clamp v 0 1 \<le> 1"
  by (simp add: clamp_def)

lemma uint8_to_float_range: "0 \<le> uint8_to_float w \<and> uint8_to_float w \<le> 255"
proof -
  have "unat w < 2 ^ 8" using unsigned_less [of w] by simp
  then have "unat w \<le> 255" by simp
  then have "real (unat w) \<le> 255" by (metis of_nat_le_iff of_nat_numeral)
  moreover have "0 \<le> real (unat w)" by (rule of_nat_0_le_iff)
  ultimately show ?thesis unfolding uint8_to_float_def by (rule conjI [rotated])
qed

lemma to_uint8_no_wrap:
  assumes "0 \<le> x" and "x \<le> 255"
  shows "uint8_to_float (to_uint8 x) = real_of_int \<lfloor>x\<rfloor>"
proof -
  have lo: "0 \<le> \<lfloor>x\<rfloor>" using assms(1) by simp
  have hi: "\<lfloor>x\<rfloor> \<le> 255" using assms(2) by (simp add: floor_le_iff)
  have "uint (word_of_int \<lfloor>x\<rfloor> :: 8 word) = \<lfloor>x\<rfloor> mod 256"
    by (simp add: uint_word_of_int)
  also have "\<dots> = \<lfloor>x\<rfloor>" using lo hi by simp
  finally have u: "uint (to_uint8 x) = \<lfloor>x\<rfloor>"
    using assms(1) by (simp add: to_uint8_def float_to_int_def)
  have "int (unat (to_uint8 x)) = uint (to_uint8 x)" by simp
  then have "real (unat (to_uint8 x)) = real_of_int (uint (to_uint8 x))"
    by (metis of_int_of_nat_eq)
  then show ?thesis unfolding uint8_to_float_def u .
qed


lemma GetColourValue_SetPixel:
  "GetColourValue (SetPixel m pos (Pixel3 p p2 p3)) q =
     (if q = pos \<and> in_sprite m pos then uint8_to_float p / 255 else GetColourValue m q)"
  by (auto simp add: GetColourValue_def SetPixel_def GetPixel_def in_sprite_def Pixel3_def Let_def)

lemma in_sprite_SetPixel [simp]: "in_sprite (SetPixel m pos p) q = in_sprite m q"
  by (simp add: SetPixel_def in_sprite_def)

lemma GetColourValue_SetColourValue:
  "GetColourValue (SetColourValue m pos v) q =
     (if q = pos \<and> in_sprite m pos then quantise v else GetColourValue m q)"
  by (simp add: SetColourValue_def Let_def GetColourValue_SetPixel quantise_def)

lemma in_sprite_SetColourValue [simp]: "in_sprite (SetColourValue m pos v) q = in_sprite m q"
  by (simp add: SetColourValue_def Let_def)

lemma quantise_floor: "quantise v = real_of_int \<lfloor>clamp v 0 1 * 255\<rfloor> / 255"
proof -
  have "0 \<le> clamp v 0 1 * 255" "clamp v 0 1 * 255 \<le> 255"
    using clamp_unit [of v] by simp_all
  then have "uint8_to_float (to_uint8 (clamp v 0 1 * 255)) = real_of_int \<lfloor>clamp v 0 1 * 255\<rfloor>"
    by (rule to_uint8_no_wrap)
  then show ?thesis by (simp add: quantise_def)
qed


lemma quantise_GetColourValue: "quantise (GetColourValue m pos) = GetColourValue m pos"
proof -
  let ?w = "r (GetPixel m pos)"
  have rng: "0 \<le> uint8_to_float ?w" "uint8_to_float ?w \<le> 255"
    using uint8_to_float_range [of ?w] by simp_all
  then have "clamp (uint8_to_float ?w / 255) 0 1 = uint8_to_float ?w / 255"
    by (simp add: clamp_def)
  moreover have "real_of_int \<lfloor>uint8_to_float ?w\<rfloor> = uint8_to_float ?w"
    unfolding uint8_to_float_def by (simp only: floor_of_nat of_int_of_nat_eq)
  ultimately show ?thesis
    by (simp add: GetColourValue_def Let_def quantise_floor)
qed



section \<open>Raycasts\<close>

declare dda_loop.simps [simp del] dda_trace.simps [simp del]

lemma dda_trace_nonempty: "dda_trace q ms d md st \<noteq> []"
  by (subst dda_trace.simps) simp

lemma dda_trace_hd: "dda_trace q ms d md st ! 0 = st"
  by (subst dda_trace.simps) simp

lemma dda_trace_length: "0 < length (dda_trace q ms d md st)"
  using dda_trace_nonempty by blast

lemma dda_loop_last: "dda_loop q ms d md st = last (dda_trace q ms d md st)"
proof (induction q ms d md st rule: dda_loop.induct)
  case (1 q ms d md st)
  show ?case
  proof (cases "dda_continues md st")
    case True
    then show ?thesis
      using 1 dda_trace_nonempty [of q ms d md "dda_body q ms d st"]
      by (subst dda_loop.simps, subst dda_trace.simps) simp
  next
    case False
    then show ?thesis
      by (subst dda_loop.simps, subst dda_trace.simps) simp
  qed
qed

lemma dda_trace_step:
  "Suc i < length (dda_trace q ms d md st) \<Longrightarrow>
     dda_continues md (dda_trace q ms d md st ! i)
     \<and> dda_trace q ms d md st ! Suc i = dda_body q ms d (dda_trace q ms d md st ! i)"
proof (induction q ms d md st arbitrary: i rule: dda_trace.induct)
  case (1 q ms d md st)
  have c: "dda_continues md st"
    using "1.prems" by (subst (asm) dda_trace.simps) (simp split: if_splits)
  then have unf: "dda_trace q ms d md st = st # dda_trace q ms d md (dda_body q ms d st)"
    by (subst dda_trace.simps) simp
  show ?case
  proof (cases i)
    case 0
    then show ?thesis using c unf dda_trace_hd [of q ms d md "dda_body q ms d st"] by simp
  next
    case (Suc j)
    then have "Suc j < length (dda_trace q ms d md (dda_body q ms d st))"
      using "1.prems" unf by simp
    then show ?thesis using "1.IH" [OF c] Suc unf by simp
  qed
qed


lemma dda_body_found:
  "\<not> bTileFound st \<Longrightarrow>
     bTileFound (dda_body q ms d st)
       = (in_map ms (vMapCheck (dda_body q ms d st)) \<and> q (vMapCheck (dda_body q ms d st)))"
  by (simp add: dda_body_def dda_walk_def Let_def)

lemma dda_body_previous: "previous_tile (dda_body q ms d st) = vMapCheck st"
  by (simp add: dda_body_def dda_walk_def Let_def)

lemma dda_body_progress:
  "progress s d (vMapCheck (dda_body q ms d st)) = progress s d (vMapCheck st) + 1"
  by (simp add: dda_body_def dda_walk_def Let_def progress_def vStep_def algebra_simps)

lemma dda_trace_progress:
  "i < length (dda_trace q ms d md st) \<Longrightarrow>
     progress s d (vMapCheck (dda_trace q ms d md st ! i)) = progress s d (vMapCheck st) + int i"
proof (induction i)
  case 0
  then show ?case by (simp add: dda_trace_hd)
next
  case (Suc i)
  then show ?case using dda_trace_step [of i q ms d md st] by (simp add: dda_body_progress)
qed

lemma dda_trace_found:
  assumes "Suc i < length (dda_trace q ms d md st)"
  shows "bTileFound (dda_trace q ms d md st ! Suc i)
           = (in_map ms (vMapCheck (dda_trace q ms d md st ! Suc i))
              \<and> q (vMapCheck (dda_trace q ms d md st ! Suc i)))"
  using dda_trace_step [OF assms] dda_body_found [of "dda_trace q ms d md st ! i" q ms d]
  by (simp add: dda_continues_def)

lemma visited_length: "length (visited q ms d md s) = length (dda_trace q ms d md (dda_start s d))"
  by (simp add: visited_def)

lemma visited_nth:
  "k < length (visited q ms d md s) \<Longrightarrow>
     visited q ms d md s ! k = vMapCheck (dda_trace q ms d md (dda_start s d) ! k)"
  by (simp add: visited_def)

lemma visited_last:
  "last (visited q ms d md s) = vMapCheck (dda_loop q ms d md (dda_start s d))"
  by (simp add: visited_def dda_loop_last last_map dda_trace_nonempty)

lemma progress_start: "progress s d s = 0"
  by (simp add: progress_def)

lemma visited_not_origin:
  assumes "0 < k" and "k < length (visited q ms d md s)"
  shows "visited q ms d md s ! k \<noteq> s"
proof -
  have "progress s d (visited q ms d md s ! k) = int k"
    using assms(2) dda_trace_progress [of k q ms d md "dda_start s d" s]
    by (simp add: visited_length visited_nth dda_start_def Let_def progress_start)
  then show ?thesis using assms(1) progress_start [of s d] by auto
qed

lemma dda_loop_final:
  "dda_loop q ms d md st = dda_trace q ms d md st ! (length (dda_trace q ms d md st) - 1)"
  by (simp add: dda_loop_last last_conv_nth dda_trace_nonempty)

lemma dda_loop_found_cases:
  assumes "bTileFound (dda_loop q ms d md (dda_start s d))"
  shows "2 \<le> length (visited q ms d md s)
         \<and> in_map ms (last (visited q ms d md s)) \<and> q (last (visited q ms d md s))"
proof -
  let ?tr = "dda_trace q ms d md (dda_start s d)"
  have ne: "0 < length ?tr" by (rule dda_trace_length)
  have len: "2 \<le> length ?tr"
  proof (rule ccontr)
    assume "\<not> 2 \<le> length ?tr"
    then have "length ?tr = 1" using ne by arith
    then have "dda_loop q ms d md (dda_start s d) = dda_start s d"
      by (simp add: dda_loop_final dda_trace_hd)
    then show False using assms by (simp add: dda_start_def Let_def)
  qed
  then have "length ?tr = Suc (Suc (length ?tr - 2))" by arith
  then obtain i where i: "length ?tr = Suc (Suc i)" ..
  then have "Suc i < length ?tr" by simp
  from dda_trace_found [OF this] assms i
  show ?thesis using len by (simp add: dda_loop_final visited_last visited_length)
qed

lemma dda_loop_miss_cases:
  assumes "\<not> bTileFound (dda_loop q ms d md (dda_start s d))"
  shows "length (visited q ms d md s) = 1
         \<or> \<not> (in_map ms (last (visited q ms d md s)) \<and> q (last (visited q ms d md s)))"
proof (cases "length (visited q ms d md s) = 1")
  case True
  then show ?thesis by simp
next
  case False
  let ?tr = "dda_trace q ms d md (dda_start s d)"
  have "0 < length ?tr" by (rule dda_trace_length)
  moreover have "length ?tr \<noteq> 1" using False by (simp add: visited_length)
  ultimately have "length ?tr = Suc (Suc (length ?tr - 2))" by arith
  then obtain i where i: "length ?tr = Suc (Suc i)" ..
  then have "Suc i < length ?tr" by simp
  from dda_trace_found [OF this] assms i
  show ?thesis by (simp add: dda_loop_final visited_last)
qed

text \<open>
  C9. For every raycast variant the cell of the ray origin is never examined: the walk
  advances before the first occupancy test and never comes back, so every visited cell but
  the first differs from the origin cell, and on a grid whose only qualifying cell is the
  origin cell every cast returns hit = false.
\<close>

theorem origin_cell_never_examined:
  "(\<forall>k. 0 < k \<longrightarrow> k < length (visited q ms d md s) \<longrightarrow> visited q ms d md s ! k \<noteq> s)
   \<and> ((\<forall>pos. pos \<noteq> s \<longrightarrow> MapLocationIsEmpty (map_sprite e) pos) \<longrightarrow>
        \<not> fst (RaycastPixel e s d md) \<and> \<not> fst (RaycastPrePixel e s d md))
   \<and> ((\<forall>pos. pos \<noteq> s \<longrightarrow> GetColourValue (map_sprite e) pos < 0.5) \<longrightarrow>
        \<not> fst (RaycastPixelTarget e s d md))"
proof -
  have miss: "\<not> bTileFound (dda_loop t ms d md (dda_start s d))"
    if only: "\<forall>pos. pos \<noteq> s \<longrightarrow> \<not> t pos" for t ms
  proof
    assume "bTileFound (dda_loop t ms d md (dda_start s d))"
    from dda_loop_found_cases [OF this]
    have len: "2 \<le> length (visited t ms d md s)" and hit: "t (last (visited t ms d md s))"
      by simp_all
    have "last (visited t ms d md s) = visited t ms d md s ! (length (visited t ms d md s) - 1)"
      using len by (intro last_conv_nth) auto
    moreover have "visited t ms d md s ! (length (visited t ms d md s) - 1) \<noteq> s"
      using len by (intro visited_not_origin) auto
    ultimately show False using only hit by metis
  qed
  have a: "\<forall>k. 0 < k \<longrightarrow> k < length (visited q ms d md s) \<longrightarrow> visited q ms d md s ! k \<noteq> s"
    using visited_not_origin by blast
  have b: "\<not> fst (RaycastPixel e s d md) \<and> \<not> fst (RaycastPrePixel e s d md)"
    if "\<forall>pos. pos \<noteq> s \<longrightarrow> MapLocationIsEmpty (map_sprite e) pos"
    using miss [of "RaycastPixel_test e" "map_size e"] that
    by (simp add: RaycastPixel_def RaycastPrePixel_def Let_def RaycastPixel_test_def)
  have c: "\<not> fst (RaycastPixelTarget e s d md)"
    if "\<forall>pos. pos \<noteq> s \<longrightarrow> GetColourValue (map_sprite e) pos < 0.5"
    using miss [of "RaycastPixelTarget_test e" "map_size e"] that
    by (simp add: RaycastPixelTarget_def Let_def RaycastPixelTarget_test_def not_le)
  show ?thesis using a b c by blast
qed

lemmas raycast_eval = RaycastPixel_def RaycastPrePixel_def RaycastPixelTarget_def
  RaycastPixel_test_def RaycastPixelTarget_test_def visited_def
  dda_loop.simps dda_trace.simps
  dda_start_def vRayUnitStepSize_def ray_unit_step_def dda_continues_def dda_body_def
  dda_walk_def vStep_def in_map_def Let_def MapLocationIsEmpty_def MapLocationIsFull_def
  GetColourValue_def GetPixel_def in_sprite_def WHITE_def BLACK_def Pixel3_def
  initial_Example_def single_cell_grid_def uint8_to_float_def

theorem origin_cell_never_examined_witness:
  "\<not> fst (RaycastPixel (initial_Example (single_cell_grid (3, 5) WHITE)) (3, 5) (1, 0) 4)
   \<and> \<not> fst (RaycastPrePixel (initial_Example (single_cell_grid (3, 5) WHITE)) (3, 5) (1, 0) 4)
   \<and> \<not> fst (RaycastPixelTarget (initial_Example (single_cell_grid (3, 5) WHITE)) (3, 5) (1, 0) 4)"
proof -
  have h1: "\<forall>pos. pos \<noteq> (3, 5) \<longrightarrow>
      MapLocationIsEmpty (map_sprite (initial_Example (single_cell_grid (3, 5) WHITE))) pos"
    by (simp add: MapLocationIsEmpty_def GetPixel_def initial_Example_def single_cell_grid_def
        BLACK_def BLANK_def Pixel3_def Let_def)
  have h2: "\<forall>pos. pos \<noteq> (3, 5) \<longrightarrow>
      GetColourValue (map_sprite (initial_Example (single_cell_grid (3, 5) WHITE))) pos < 0.5"
    by (simp add: GetColourValue_def GetPixel_def initial_Example_def single_cell_grid_def
        BLACK_def BLANK_def Pixel3_def Let_def uint8_to_float_def)
  show ?thesis
    using h1 h2
      origin_cell_never_examined [of "RaycastPixel_test (initial_Example (single_cell_grid (3, 5) WHITE))" "(512, 512)" "(1, 0)" 4 "(3, 5)"
        "initial_Example (single_cell_grid (3, 5) WHITE)"]
    by blast
qed







lemma dda_loop_previous_tile:
  "previous_tile (dda_loop q ms d md (dda_start s d)) =
     (if 2 \<le> length (visited q ms d md s)
      then visited q ms d md s ! (length (visited q ms d md s) - 2) else s)"
proof (cases "2 \<le> length (visited q ms d md s)")
  case True
  let ?tr = "dda_trace q ms d md (dda_start s d)"
  from True have "length ?tr = Suc (Suc (length ?tr - 2))" by (simp add: visited_length)
  then obtain i where i: "length ?tr = Suc (Suc i)" ..
  then have "Suc i < length ?tr" by simp
  from dda_trace_step [OF this] i True
  show ?thesis by (simp add: dda_loop_final dda_body_previous visited_length visited_nth)
next
  case False
  let ?tr = "dda_trace q ms d md (dda_start s d)"
  have "0 < length ?tr" by (rule dda_trace_length)
  moreover have "\<not> 2 \<le> length ?tr" using False by (simp add: visited_length)
  ultimately have "length ?tr = 1" by arith
  then have "dda_loop q ms d md (dda_start s d) = dda_start s d"
    by (simp add: dda_loop_final dda_trace_hd)
  then show ?thesis using False by (simp add: dda_start_def Let_def)
qed

lemma empty_not_full: "MapLocationIsEmpty m pos \<Longrightarrow> \<not> MapLocationIsFull m pos"
  by (simp add: MapLocationIsEmpty_def MapLocationIsFull_def Let_def)

lemma off_sprite_not_full: "\<not> in_sprite m pos \<Longrightarrow> \<not> MapLocationIsFull m pos"
  by (simp add: MapLocationIsFull_def GetPixel_def BLANK_def Let_def)

text \<open>
  C3, as the code has it. \<^verbatim>\<open>RaycastPrePixel\<close> reports the cell visited immediately before
  the final visited cell when the final visited cell is full (all three colour channels
  255), and the final visited cell otherwise, also after a hit on a partly filled cell. A
  hit implies that the walk made a step and that the final visited cell is not empty. When
  the map bounds are the sprite's and the call returns hit = false, the reported cell is
  the final visited cell.
\<close>

theorem RaycastPrePixel_reported_cell:
  "snd (RaycastPrePixel e s d md) =
     (if MapLocationIsFull (map_sprite e) (last (visited (RaycastPixel_test e) (map_size e) d md s))
      then (if 2 \<le> length (visited (RaycastPixel_test e) (map_size e) d md s)
            then visited (RaycastPixel_test e) (map_size e) d md s
                   ! (length (visited (RaycastPixel_test e) (map_size e) d md s) - 2)
            else s)
      else last (visited (RaycastPixel_test e) (map_size e) d md s))
   \<and> (fst (RaycastPrePixel e s d md) \<longrightarrow>
        2 \<le> length (visited (RaycastPixel_test e) (map_size e) d md s)
        \<and> \<not> MapLocationIsEmpty (map_sprite e) (last (visited (RaycastPixel_test e) (map_size e) d md s)))
   \<and> (map_size e = (width (map_sprite e), height (map_sprite e)) \<longrightarrow>
        \<not> fst (RaycastPrePixel e s d md) \<longrightarrow>
        snd (RaycastPrePixel e s d md) = last (visited (RaycastPixel_test e) (map_size e) d md s))"
proof -
  let ?q = "RaycastPixel_test e" and ?ms = "map_size e"
  let ?vs = "visited ?q ?ms d md s"
  let ?st = "dda_loop ?q ?ms d md (dda_start s d)"
  have rep: "snd (RaycastPrePixel e s d md) =
     (if MapLocationIsFull (map_sprite e) (last ?vs)
      then (if 2 \<le> length ?vs then ?vs ! (length ?vs - 2) else s) else last ?vs)"
    by (simp add: RaycastPrePixel_def Let_def visited_last dda_loop_previous_tile)
  have hit: "2 \<le> length ?vs \<and> \<not> MapLocationIsEmpty (map_sprite e) (last ?vs)"
    if "fst (RaycastPrePixel e s d md)"
  proof -
    from that have "bTileFound ?st" by (simp add: RaycastPrePixel_def Let_def)
    from dda_loop_found_cases [OF this] show ?thesis by (simp add: RaycastPixel_test_def)
  qed
  have miss: "snd (RaycastPrePixel e s d md) = last ?vs"
    if wf: "?ms = (width (map_sprite e), height (map_sprite e))"
      and "\<not> fst (RaycastPrePixel e s d md)"
  proof -
    from that have "\<not> bTileFound ?st" by (simp add: RaycastPrePixel_def Let_def)
    from dda_loop_miss_cases [OF this]
    consider "length ?vs = 1" | "\<not> in_map ?ms (last ?vs)" | "\<not> ?q (last ?vs)" by blast
    then show ?thesis
    proof cases
      case 1
      then have "?vs \<noteq> []" by auto
      then have "last ?vs = ?vs ! 0" using 1 by (simp add: last_conv_nth)
      also have "\<dots> = s" using 1 by (simp add: visited_nth dda_trace_hd dda_start_def Let_def)
      finally show ?thesis using 1 rep by simp
    next
      case 2
      then have "\<not> in_sprite (map_sprite e) (last ?vs)"
        using wf by (simp add: in_map_def in_sprite_def)
      then show ?thesis using rep off_sprite_not_full by simp
    next
      case 3
      then have "MapLocationIsEmpty (map_sprite e) (last ?vs)"
        by (simp add: RaycastPixel_test_def)
      then show ?thesis using rep empty_not_full by simp
    qed
  qed
  show ?thesis using rep hit miss by blast
qed

theorem RaycastPrePixel_reported_cell_witness:
  "fst (RaycastPrePixel (initial_Example (single_cell_grid (2, 5) WHITE)) (0, 5) (1, 0) 10)
   \<and> 2 \<le> length (visited (RaycastPixel_test (initial_Example (single_cell_grid (2, 5) WHITE)))
              (map_size (initial_Example (single_cell_grid (2, 5) WHITE))) (1, 0) 10 (0, 5))
   \<and> snd (RaycastPrePixel (initial_Example (single_cell_grid (2, 5) WHITE)) (0, 5) (1, 0) 10) = (1, 5)"
proof -
  have h: "fst (RaycastPrePixel (initial_Example (single_cell_grid (2, 5) WHITE)) (0, 5) (1, 0) 10)"
    by (simp add: raycast_eval)
  have v: "visited (RaycastPixel_test (initial_Example (single_cell_grid (2, 5) WHITE)))
              (map_size (initial_Example (single_cell_grid (2, 5) WHITE))) (1, 0) 10 (0, 5)
           = [(0, 5), (1, 5), (2, 5)]"
    by (simp add: raycast_eval)
  have f: "MapLocationIsFull (map_sprite (initial_Example (single_cell_grid (2, 5) WHITE))) (2, 5)"
    by (simp add: raycast_eval)
  show ?thesis
    using h f RaycastPrePixel_reported_cell [of "initial_Example (single_cell_grid (2, 5) WHITE)"
        "(0, 5)" "(1, 0)" 10]
    unfolding v by simp
qed

text \<open>
  A hit on a partly filled cell (level 100 of 255): the reported cell is the final visited
  cell (2, 5), not the cell (1, 5) visited before it.
\<close>

theorem RaycastPrePixel_partial_cell_counterexample:
  "RaycastPrePixel (initial_Example (single_cell_grid (2, 5) (Pixel3 100 100 100))) (0, 5) (1, 0) 10
     = (True, (2, 5))
   \<and> visited (RaycastPixel_test (initial_Example (single_cell_grid (2, 5) (Pixel3 100 100 100))))
        (512, 512) (1, 0) 10 (0, 5) = [(0, 5), (1, 5), (2, 5)]"
  by (simp add: raycast_eval)

section \<open>Cone sweep ray count\<close>

lemma pow2_powr: "pow2 e = 2 powr of_int e"
proof (cases "0 \<le> e")
  case True
  then have "2 powr of_int e = (2::real) powr real (nat e)" by simp
  also have "\<dots> = 2 ^ nat e" by (rule powr_realpow) simp
  finally show ?thesis using True by (simp add: pow2_def)
next
  case False
  then have "(2::real) powr of_int e = 2 powr (- real (nat (- e)))" by simp
  also have "\<dots> = 1 / 2 powr real (nat (- e))" by (simp add: powr_minus_divide)
  also have "(2::real) powr real (nat (- e)) = 2 ^ nat (- e)" by (rule powr_realpow) simp
  finally show ?thesis using False by (simp add: pow2_def)
qed

lemma pow2_pos: "0 < pow2 e"
  by (simp add: pow2_def)

lemma round_even_of_int: "round_even (of_int n) = n"
  by (simp add: round_even_def)

lemma float_ulp_binade:
  assumes "pow2 e \<le> \<bar>x\<bar>" and "\<bar>x\<bar> < pow2 (e + 1)" and "- 126 \<le> e"
  shows "float_ulp x = pow2 (e - 23)"
proof -
  have "0 < \<bar>x\<bar>" using assms(1) pow2_pos [of e] by linarith
  moreover have "2 powr of_int e \<le> \<bar>x\<bar> \<and> \<bar>x\<bar> < 2 powr (of_int e + 1)"
    using assms(1,2) by (simp add: pow2_powr)
  ultimately have "\<lfloor>log 2 \<bar>x\<bar>\<rfloor> = e"
    by (subst floor_log_eq_powr_iff) simp_all
  then show ?thesis using assms(3) by (simp add: float_ulp_def)
qed

lemma float_round_exact:
  assumes "x / float_ulp x = of_int n"
  shows "float_round x = x"
proof -
  have "float_ulp x \<noteq> 0" using pow2_pos by (simp add: float_ulp_def less_imp_neq [THEN not_sym])
  then show ?thesis
    unfolding float_round_def assms round_even_of_int
    using assms by (simp add: field_simps)
qed

lemma float_round_half_integer:
  assumes "\<bar>m\<bar> < 2 ^ 24"
  shows "float_round (real_of_int m / 2) = real_of_int m / 2"
proof (cases "m = 0")
  case True
  then show ?thesis by (simp add: float_round_def round_even_def)
next
  case False
  define x where "x = real_of_int m / 2"
  define e where "e = \<lfloor>log 2 \<bar>x\<bar>\<rfloor>"
  have "1 \<le> \<bar>m\<bar>" using False by simp
  then have "1 \<le> real_of_int \<bar>m\<bar>" by (simp only: of_int_1_le_iff)
  then have lo: "1 / 2 \<le> \<bar>x\<bar>" by (simp add: x_def)
  have "real_of_int \<bar>m\<bar> < 2 ^ 24" using assms by (simp only: of_int_less_numeral_power_cancel_iff)
  then have hi: "\<bar>x\<bar> < 2 ^ 23" by (simp add: x_def)
  have pos: "0 < \<bar>x\<bar>" using lo by simp
  have b: "2 powr of_int e \<le> \<bar>x\<bar>" "\<bar>x\<bar> < 2 powr (of_int e + 1)"
    using floor_log_eq_powr_iff [of "\<bar>x\<bar>" 2 e] pos by (simp_all add: e_def)
  have "(2::real) powr of_int e < 2 powr of_int 23" using b(1) hi by simp
  then have "real_of_int e < real_of_int 23" by (rule powr_less_cancel) simp
  then have e_hi: "e < 23" by (simp only: of_int_less_iff)
  have "(2::real) powr of_int (- 1) < 2 powr of_int (e + 1)"
    using b(2) lo by (simp add: powr_minus_divide)
  then have "real_of_int (- 1) < real_of_int (e + 1)" by (rule powr_less_cancel) simp
  then have "- 1 < e + 1" by (simp only: of_int_less_iff)
  then have e_lo: "- 2 < e" by simp
  have u: "float_ulp x = pow2 (e - 23)" using e_lo by (simp add: float_ulp_def e_def)
  have "e - 23 < 0" using e_hi by simp
  then have "pow2 (e - 23) = 1 / 2 ^ nat (23 - e)" by (simp add: pow2_def)
  then have "float_ulp x = 1 / 2 ^ nat (23 - e)" by (simp only: u)
  then have "x / float_ulp x = x * 2 ^ nat (23 - e)" by simp
  also have "\<dots> = real_of_int m / 2 * 2 ^ nat (23 - e)" by (simp only: x_def)
  also have "nat (23 - e) = Suc (nat (22 - e))" using e_hi by simp
  also have "real_of_int m / 2 * 2 ^ Suc (nat (22 - e)) = of_int (m * 2 ^ nat (22 - e))" by simp
  finally have "float_round x = x" by (rule float_round_exact)
  then show ?thesis by (simp only: x_def)
qed

lemma float_round_in_binade:
  assumes "pow2 e \<le> \<bar>x\<bar>" and "\<bar>x\<bar> < pow2 (e + 1)" and "- 126 \<le> e"
  shows "float_round x = of_int (round_even (x / pow2 (e - 23))) * pow2 (e - 23)"
  by (simp only: float_round_def float_ulp_binade [OF assms])

lemma sweep_angles_exact:
  assumes step: "0 < step"
    and n: "n = nat (\<lfloor>(cone_angle - i0) / step\<rfloor> + 1)"
    and exact: "\<forall>k<n. float_add (i0 + real k * step) step = i0 + real (Suc k) * step"
  shows "j \<le> n \<Longrightarrow>
         sweep_angles (i0 + real j * step) cone_angle step = Some (map (\<lambda>k. i0 + real k * step) [j..<n])"
proof (induction "n - j" arbitrary: j)
  case 0
  then have j: "j = n" by simp
  have "(cone_angle - i0) / step < of_int (\<lfloor>(cone_angle - i0) / step\<rfloor> + 1)" by linarith
  also have "\<dots> \<le> real n" unfolding n by (simp add: of_nat_nat)
  finally have "cone_angle - i0 < real n * step" using step by (simp add: field_simps)
  then have "\<not> i0 + real j * step \<le> cone_angle" using j by simp
  then show ?case using j by (subst sweep_angles.simps) simp
next
  case (Suc d)
  then have lt: "j < n" and d: "d = n - Suc j" and le: "Suc j \<le> n" by simp_all
  have "0 < \<lfloor>(cone_angle - i0) / step\<rfloor> + 1" using lt unfolding n by arith
  then have "real n = of_int (\<lfloor>(cone_angle - i0) / step\<rfloor> + 1)" unfolding n by simp
  moreover have "real j + 1 \<le> real n" using lt by simp
  ultimately have "real j \<le> of_int \<lfloor>(cone_angle - i0) / step\<rfloor>" by simp
  also have "\<dots> \<le> (cone_angle - i0) / step" by simp
  finally have "real j * step \<le> cone_angle - i0" using step by (simp add: field_simps)
  then have cond: "i0 + real j * step \<le> cone_angle" by simp
  have nxt: "float_add (i0 + real j * step) step = i0 + real (Suc j) * step"
    using exact lt by blast
  have ih: "sweep_angles (i0 + real (Suc j) * step) cone_angle step
              = Some (map (\<lambda>k. i0 + real k * step) [Suc j..<n])"
    using Suc.hyps(1) [OF d le] .
  have "[j..<n] = j # [Suc j..<n]" using lt by (simp add: upt_conv_Cons)
  then show ?case
    using cond by (subst sweep_angles.simps) (simp add: nxt ih del: of_nat_Suc)
qed

lemma fold_Destruct_ray_rays:
  "snd (fold Destruct_ray angles (e, rays)) =
     rays @ map (\<lambda>i. RotateVector (aim_dir e) (AngleToRadians i)) angles
   \<and> aim_dir (fst (fold Destruct_ray angles (e, rays))) = aim_dir e"
proof (induction angles arbitrary: e rays)
  case Nil
  then show ?case by simp
next
  case (Cons i angles)
  have d: "aim_dir (fst (Destruct_ray i (e, rays))) = aim_dir e"
    by (simp add: Destruct_ray_def Let_def aim_dir_def)
  have r: "snd (Destruct_ray i (e, rays)) = rays @ [RotateVector (aim_dir e) (AngleToRadians i)]"
    by (simp add: Destruct_ray_def Let_def)
  obtain e' rays' where p: "Destruct_ray i (e, rays) = (e', rays')" by force
  show ?case
    using Cons.IH [of e' rays'] d r by (simp add: p)
qed

lemma fold_Restore_ray_rays:
  "snd (fold Restore_ray angles (e, rays)) =
     rays @ map (\<lambda>i. RotateVector (aim_dir e) (AngleToRadians i)) angles
   \<and> aim_dir (fst (fold Restore_ray angles (e, rays))) = aim_dir e"
proof (induction angles arbitrary: e rays)
  case Nil
  then show ?case by simp
next
  case (Cons i angles)
  have d: "aim_dir (fst (Restore_ray i (e, rays))) = aim_dir e"
    by (simp add: Restore_ray_def Let_def aim_dir_def)
  have r: "snd (Restore_ray i (e, rays)) = rays @ [RotateVector (aim_dir e) (AngleToRadians i)]"
    by (simp add: Restore_ray_def Let_def)
  obtain e' rays' where p: "Restore_ray i (e, rays) = (e', rays')" by force
  show ?case
    using Cons.IH [of e' rays'] d r by (simp add: p)
qed

text \<open>
  C8, as the code has it. For every half-angle A > 0 and angular step s > 0 such that each
  addition i + s the loop performs on an angle -A + k s within the cone is exact in single
  precision, both cone sweeps return and cast exactly floor(2A/s) + 1 rays, the k-th along
  the aim direction rotated by -A + k s.
\<close>

theorem cone_sweep_ray_count:
  assumes "0 < terraform_angle e" and "0 < terraform_raycast_step e"
    and "\<forall>k. - terraform_angle e + real k * terraform_raycast_step e \<le> terraform_angle e \<longrightarrow>
           float_add (- terraform_angle e + real k * terraform_raycast_step e) (terraform_raycast_step e)
             = - terraform_angle e + real k * terraform_raycast_step e + terraform_raycast_step e"
  shows "\<exists>e1 e2 rays.
           DestructTerrain_GaussFractional e = Some (e1, rays)
           \<and> RestoreTerrain_GaussFractional e = Some (e2, rays)
           \<and> int (length rays) = \<lfloor>2 * terraform_angle e / terraform_raycast_step e\<rfloor> + 1
           \<and> rays = map (\<lambda>k. RotateVector (aim_dir e)
                            (AngleToRadians (- terraform_angle e + real k * terraform_raycast_step e)))
                      [0..<length rays]"
proof -
  let ?A = "terraform_angle e" and ?s = "terraform_raycast_step e"
  let ?n = "nat (\<lfloor>(?A - (- ?A)) / ?s\<rfloor> + 1)"
  let ?angles = "map (\<lambda>k. - ?A + real k * ?s) [0..<?n]"
  let ?rays = "map (\<lambda>i. RotateVector (aim_dir e) (AngleToRadians i)) ?angles"
  have ex: "\<forall>k<?n. float_add (- ?A + real k * ?s) ?s = - ?A + real (Suc k) * ?s"
  proof (intro allI impI)
    fix k
    assume "k < ?n"
    then have "int k \<le> \<lfloor>(?A - (- ?A)) / ?s\<rfloor>" by arith
    then have "real_of_int (int k) \<le> real_of_int \<lfloor>(?A - (- ?A)) / ?s\<rfloor>"
      by (simp only: of_int_le_iff)
    also have "\<dots> \<le> (?A - (- ?A)) / ?s" by (rule of_int_floor_le)
    finally have "real k * ?s \<le> ?A - (- ?A)" using assms(2) by (simp add: field_simps)
    then have "- ?A + real k * ?s \<le> ?A" by simp
    then have "float_add (- ?A + real k * ?s) ?s = - ?A + real k * ?s + ?s"
      using assms(3) by blast
    then show "float_add (- ?A + real k * ?s) ?s = - ?A + real (Suc k) * ?s"
      by (simp add: algebra_simps)
  qed
  have "sweep_angles (- ?A + real 0 * ?s) ?A ?s = Some (map (\<lambda>k. - ?A + real k * ?s) [0..<?n])"
    using assms(2) refl ex by (rule sweep_angles_exact) simp
  then have sw: "sweep_angles (- ?A) ?A ?s = Some ?angles" by simp
  have d: "DestructTerrain_GaussFractional e = Some (fst (fold Destruct_ray ?angles (e, [])), ?rays)"
    using fold_Destruct_ray_rays [of ?angles e "[]"]
    by (simp add: DestructTerrain_GaussFractional_def Let_def sw prod_eq_iff)
  have r: "RestoreTerrain_GaussFractional e = Some (fst (fold Restore_ray ?angles (e, [])), ?rays)"
    using fold_Restore_ray_rays [of ?angles e "[]"]
    by (simp add: RestoreTerrain_GaussFractional_def Let_def sw prod_eq_iff)
  have "0 \<le> 2 * ?A / ?s" using assms by simp
  then have "0 \<le> \<lfloor>2 * ?A / ?s\<rfloor>" by simp
  then have len: "int (length ?rays) = \<lfloor>2 * ?A / ?s\<rfloor> + 1" by simp
  have shape: "?rays = map (\<lambda>k. RotateVector (aim_dir e) (AngleToRadians (- ?A + real k * ?s)))
                      [0..<length ?rays]"
    by (simp add: comp_def)
  show ?thesis using d r len shape by blast
qed

theorem cone_sweep_ray_count_witness:
  "0 < terraform_angle (initial_Example (single_cell_grid (3, 5) WHITE))
   \<and> 0 < terraform_raycast_step (initial_Example (single_cell_grid (3, 5) WHITE))
   \<and> (\<exists>e1 e2 rays.
        DestructTerrain_GaussFractional (initial_Example (single_cell_grid (3, 5) WHITE)) = Some (e1, rays)
        \<and> RestoreTerrain_GaussFractional (initial_Example (single_cell_grid (3, 5) WHITE)) = Some (e2, rays)
        \<and> length rays = 201)"
proof -
  let ?e = "initial_Example (single_cell_grid (3, 5) WHITE)"
  have A: "terraform_angle ?e = 50" and s: "terraform_raycast_step ?e = 1 / 2"
    by (simp_all add: initial_Example_def)
  have h1: "0 < terraform_angle ?e" and h2: "0 < terraform_raycast_step ?e"
    by (simp_all add: A s)
  have h3: "\<forall>k. - terraform_angle ?e + real k * terraform_raycast_step ?e \<le> terraform_angle ?e \<longrightarrow>
           float_add (- terraform_angle ?e + real k * terraform_raycast_step ?e) (terraform_raycast_step ?e)
             = - terraform_angle ?e + real k * terraform_raycast_step ?e + terraform_raycast_step ?e"
    unfolding A s
  proof (intro allI impI)
    fix k :: nat
    assume "- 50 + real k * (1 / 2) \<le> (50::real)"
    then have k: "k \<le> 200" by simp
    have e: "- 50 + real k * (1 / 2) + 1 / 2 = real_of_int (int k - 99) / 2" by simp
    have "\<bar>int k - 99\<bar> < 2 ^ 24" using k by simp
    then have "float_round (real_of_int (int k - 99) / 2) = real_of_int (int k - 99) / 2"
      by (rule float_round_half_integer)
    then show "float_add (- 50 + real k * (1 / 2)) (1 / 2) = - 50 + real k * (1 / 2) + 1 / 2"
      unfolding float_add_def e .
  qed
  have n: "\<lfloor>2 * terraform_angle ?e / terraform_raycast_step ?e\<rfloor> + 1 = 201"
    by (simp add: A s)
  from cone_sweep_ray_count [OF h1 h2 h3] obtain e1 e2 rays where
    "DestructTerrain_GaussFractional ?e = Some (e1, rays)"
    "RestoreTerrain_GaussFractional ?e = Some (e2, rays)"
    "int (length rays) = 201"
    unfolding n by blast
  then show ?thesis using h1 h2 by auto
qed

lemma coarse_sweep_angles:
  "sweep_angles (- 32) 32 (11184811 / 524288) = Some [- 32, - (5592405 / 524288), 2796203 / 262144, 32]"
proof -
  have a1: "float_add (- 32) (11184811 / 524288) = - (5592405 / 524288)"
    unfolding float_add_def
    using float_round_in_binade [of 3 "- 32 + 11184811 / 524288"]
    by (simp add: pow2_def round_even_def)
  have a2: "float_add (- (5592405 / 524288)) (11184811 / 524288) = 2796203 / 262144"
    unfolding float_add_def
    using float_round_in_binade [of 3 "- (5592405 / 524288) + 11184811 / 524288"]
    by (simp add: pow2_def round_even_def)
  have a3: "float_add (2796203 / 262144) (11184811 / 524288) = 32"
    unfolding float_add_def
    using float_round_in_binade [of 5 "2796203 / 262144 + 11184811 / 524288"]
    by (simp add: pow2_def round_even_def)
  have a4: "float_add 32 (11184811 / 524288) = 6990507 / 131072"
    unfolding float_add_def
    using float_round_in_binade [of 5 "32 + 11184811 / 524288"]
    by (simp add: pow2_def round_even_def)
  have s4: "sweep_angles (6990507 / 131072) 32 (11184811 / 524288) = Some []"
    by (subst sweep_angles.simps) simp
  have s3: "sweep_angles 32 32 (11184811 / 524288) = Some [32]"
    by (subst sweep_angles.simps) (simp add: a4 s4)
  have s2: "sweep_angles (2796203 / 262144) 32 (11184811 / 524288) = Some [2796203 / 262144, 32]"
    by (subst sweep_angles.simps) (simp add: a3 s3)
  have s1: "sweep_angles (- (5592405 / 524288)) 32 (11184811 / 524288)
              = Some [- (5592405 / 524288), 2796203 / 262144, 32]"
    by (subst sweep_angles.simps) (simp add: a2 s2)
  show ?thesis
    by (subst sweep_angles.simps) (simp add: a1 s1)
qed

lemma absorbed_step: "float_add (- 50) (1 / 1048576) = - 50"
  unfolding float_add_def
  using float_round_in_binade [of 5 "- 50 + 1 / 1048576"]
  by (simp add: pow2_def round_even_def)

lemma absorbed_sweep_never_returns: "sweep_angles (- 50) 50 (1 / 1048576) = None"
proof (cases "sweep_angles (- 50) 50 (1 / 1048576)")
  case None
  then show ?thesis .
next
  case (Some angles)
  have "\<not> (- 50 = (- 50 :: real) \<and> (50 :: real) = 50 \<and> 1 / 1048576 = (1 / 1048576 :: real))"
  proof (rule sweep_angles.raw_induct
           [where P = "\<lambda>i cone_angle step angles. \<not> (i = - 50 \<and> cone_angle = 50 \<and> step = 1 / 1048576)",
            OF _ Some])
    fix rec :: "real \<Rightarrow> real \<Rightarrow> real \<Rightarrow> real list option" and i cone_angle step :: real
      and ia :: "real list"
    assume ih: "\<And>cone_angle step b y. rec cone_angle step b = Some y \<Longrightarrow>
                  \<not> (cone_angle = - 50 \<and> step = 50 \<and> b = 1 / 1048576)"
      and body: "(if i \<le> cone_angle
                  then Option.bind (rec (float_add i step) cone_angle step) (\<lambda>rest. Some (i # rest))
                  else Some []) = Some ia"
    show "\<not> (i = - 50 \<and> cone_angle = 50 \<and> step = 1 / 1048576)"
    proof
      assume c: "i = - 50 \<and> cone_angle = 50 \<and> step = 1 / 1048576"
      have i: "i = - 50" and A: "cone_angle = 50" and s: "step = 1 / 1048576"
        using c by blast+
      have "(if (- 50 :: real) \<le> 50
             then Option.bind (rec (float_add (- 50) (1 / 1048576)) 50 (1 / 1048576))
                    (\<lambda>rest. Some (- 50 # rest))
             else Some []) = Some ia"
        using body unfolding i A s .
      then have "Option.bind (rec (- 50) 50 (1 / 1048576)) (\<lambda>rest. Some (- 50 # rest)) = Some ia"
        unfolding absorbed_step by simp
      then obtain rest where "rec (- 50) 50 (1 / 1048576) = Some rest"
        by (auto split: bind_splits)
      then show False using ih by blast
    qed
  qed
  then show ?thesis by simp
qed

text \<open>
  C8 as stated fails. With half-angle 32 and step 11184811 / 2^19 the loop variable takes the
  values -32, -10.666666, 10.666668 and 32: the exact sum 32 + 2^-19 of the third addition is
  not a single-precision value and is rounded to 32, which is still within the cone. Both
  sweeps cast 4 rays, and floor(2A/s) + 1 is 3. With half-angle 50 and step 2^-20 the first
  sum -50 + 2^-20 is rounded back to -50: the loop variable never advances and neither sweep
  returns.
\<close>

theorem cone_sweep_rounding_counterexample:
  "rays_cast (DestructTerrain_GaussFractional coarse_sweep) = Some 4
   \<and> rays_cast (RestoreTerrain_GaussFractional coarse_sweep) = Some 4
   \<and> \<lfloor>2 * terraform_angle coarse_sweep / terraform_raycast_step coarse_sweep\<rfloor> + 1 = 3
   \<and> 0 < terraform_angle fine_sweep \<and> 0 < terraform_raycast_step fine_sweep
   \<and> DestructTerrain_GaussFractional fine_sweep = None
   \<and> RestoreTerrain_GaussFractional fine_sweep = None"
proof -
  have f: "terraform_angle fine_sweep = 50" "terraform_raycast_step fine_sweep = 1 / 1048576"
    by (simp_all add: fine_sweep_def initial_Example_def)
  have fd: "DestructTerrain_GaussFractional fine_sweep = None"
    by (simp add: DestructTerrain_GaussFractional_def Let_def f absorbed_sweep_never_returns)
  have fr: "RestoreTerrain_GaussFractional fine_sweep = None"
    by (simp add: RestoreTerrain_GaussFractional_def Let_def f absorbed_sweep_never_returns)
  let ?angles = "[- 32, - (5592405 / 524288), 2796203 / 262144, 32 :: real]"
  have A: "terraform_angle coarse_sweep = 32" and s: "terraform_raycast_step coarse_sweep = 11184811 / 524288"
    by (simp_all add: coarse_sweep_def initial_Example_def)
  have d: "rays_cast (DestructTerrain_GaussFractional coarse_sweep) = Some 4"
    using fold_Destruct_ray_rays [of ?angles coarse_sweep "[]"]
    by (simp add: rays_cast_def DestructTerrain_GaussFractional_def Let_def A s coarse_sweep_angles)
  have r: "rays_cast (RestoreTerrain_GaussFractional coarse_sweep) = Some 4"
    using fold_Restore_ray_rays [of ?angles coarse_sweep "[]"]
    by (simp add: rays_cast_def RestoreTerrain_GaussFractional_def Let_def A s coarse_sweep_angles)
  have n: "\<lfloor>2 * terraform_angle coarse_sweep / terraform_raycast_step coarse_sweep\<rfloor> + 1 = 3"
    unfolding A s by simp
  show ?thesis using d r n fd fr by (simp add: f)
qed

section \<open>Folds\<close>

lemma fold_Some_invariant:
  assumes "P s0"
    and "\<And>x s. x \<in> set xs \<Longrightarrow> P s \<Longrightarrow> f x (Some s) = Some (h x s) \<and> P (h x s)"
  shows "fold f xs (Some s0) = Some (fold h xs s0) \<and> P (fold h xs s0)"
  using assms
proof (induction xs arbitrary: s0)
  case Nil
  then show ?case by simp
next
  case (Cons x xs)
  have step: "f x (Some s0) = Some (h x s0) \<and> P (h x s0)"
    using Cons.prems by simp
  have "fold f xs (Some (h x s0)) = Some (fold h xs (h x s0)) \<and> P (fold h xs (h x s0))"
    using step Cons.prems(2) by (intro Cons.IH) simp_all
  then show ?case using step by simp
qed

lemma fold_invariant:
  assumes "P s0" and "\<And>x s. x \<in> set xs \<Longrightarrow> P s \<Longrightarrow> P (h x s)"
  shows "P (fold h xs s0)"
  using assms by (induction xs arbitrary: s0) simp_all

lemma fold_product:
  "fold (\<lambda>x. fold (f x) ys) xs s = fold (\<lambda>p. f (fst p) (snd p)) (List.product xs ys) s"
proof (induction xs arbitrary: s)
  case Nil
  then show ?case by simp
next
  case (Cons x xs)
  have "fold (\<lambda>p. f (fst p) (snd p)) (map (Pair x) ys) s = fold (f x) ys s"
    by (simp add: fold_map comp_def)
  then show ?case using Cons.IH by simp
qed

section \<open>The scratch buffer\<close>

lemma same_shape_refl [simp]: "same_shape bb bb"
  by (simp add: same_shape_def)

lemma same_shape_trans: "same_shape b1 b2 \<Longrightarrow> same_shape b2 b3 \<Longrightarrow> same_shape b1 b3"
  by (simp add: same_shape_def)

lemma same_shape_upd [simp]: "same_shape bb (bb_upd bb x y v)"
  by (simp add: same_shape_def bb_upd_def)

lemma same_shape_window: "same_shape bb bb' \<Longrightarrow> in_window bb' x y = in_window bb x y"
  by (simp add: same_shape_def in_window_def)

lemma same_shape_index: "same_shape bb bb' \<Longrightarrow> get_index bb' x y = get_index bb x y"
  by (simp add: same_shape_def get_index_def)

lemma same_shape_wf: "same_shape bb bb' \<Longrightarrow> bb_wf bb' = bb_wf bb"
  by (simp add: same_shape_def bb_wf_def)

lemma get_index_in_bounds:
  assumes "bb_wf bb" and "in_window bb x y"
  shows "0 \<le> get_index bb x y \<and> get_index bb x y < int (length (buffer bb))"
proof -
  let ?c = "x - x_offset bb" and ?r = "y - y_offset bb"
  have c: "0 \<le> ?c" "?c < x_size bb" and r: "0 \<le> ?r" "?r < y_size bb"
    using assms(2) by (simp_all add: in_window_def)
  have "0 \<le> ?r * x_size bb" using r(1) c by simp
  then have lo: "0 \<le> get_index bb x y" using c(1) by (simp add: get_index_def)
  have "?r + 1 \<le> y_size bb" using r(2) by simp
  then have "(?r + 1) * x_size bb \<le> y_size bb * x_size bb"
    using c by (intro mult_right_mono) simp_all
  then have "?r * x_size bb + ?c < x_size bb * y_size bb"
    using c(2) by (simp add: algebra_simps)
  moreover have "int (length (buffer bb)) = x_size bb * y_size bb"
    using assms(1) c r by (simp add: bb_wf_def)
  ultimately show ?thesis using lo by (simp add: get_index_def)
qed

lemma get_index_inj:
  assumes "in_window bb x y" and "in_window bb x' y'"
    and "get_index bb x y = get_index bb x' y'"
  shows "x = x' \<and> y = y'"
proof -
  let ?n = "x_size bb"
  let ?c = "x - x_offset bb" and ?r = "y - y_offset bb"
  let ?c' = "x' - x_offset bb" and ?r' = "y' - y_offset bb"
  have c: "0 \<le> ?c" "?c < ?n" and c': "0 \<le> ?c'" "?c' < ?n"
    using assms(1,2) by (simp_all add: in_window_def)
  have eq: "?r * ?n + ?c = ?r' * ?n + ?c'"
    using assms(3) by (simp add: get_index_def)
  have "(?r * ?n + ?c) div ?n = ?r" using c by simp
  moreover have "(?r' * ?n + ?c') div ?n = ?r'" using c' by simp
  ultimately have "?r = ?r'" using eq by simp
  then show ?thesis using eq by simp
qed

lemma BlockBuffer_set_Some:
  "in_window bb x y \<Longrightarrow> BlockBuffer_set bb x y v = Some (bb_upd bb x y v)"
  by (simp add: BlockBuffer_set_def bb_upd_def Let_def)

lemma BlockBuffer_get_Some:
  "in_window bb x y \<Longrightarrow> BlockBuffer_get bb x y = Some (bb_val bb x y)"
  by (simp add: BlockBuffer_get_def bb_val_def)

lemma bb_val_upd:
  assumes "bb_wf bb" and "in_window bb x y" and "in_window bb x' y'"
  shows "bb_val (bb_upd bb x y v) x' y' = (if x' = x \<and> y' = y then v else bb_val bb x' y')"
proof (cases "x' = x \<and> y' = y")
  case True
  have "nat (get_index bb x y) < length (buffer bb)"
    using get_index_in_bounds [OF assms(1,2)] by linarith
  then show ?thesis using True by (simp add: bb_val_def bb_upd_def get_index_def)
next
  case False
  then have "get_index bb x y \<noteq> get_index bb x' y'"
    using get_index_inj [OF assms(2,3)] by blast
  moreover have "0 \<le> get_index bb x y" "0 \<le> get_index bb x' y'"
    using get_index_in_bounds assms by simp_all
  ultimately have "nat (get_index bb x y) \<noteq> nat (get_index bb x' y')" by simp
  then have "bb_val (bb_upd bb x y v) x' y' = bb_val bb x' y'"
    by (simp add: bb_val_def bb_upd_def get_index_def)
  then show ?thesis using False by auto
qed

lemma BlockBuffer_new_square:
  assumes "0 \<le> w"
  shows "bb_wf (BlockBuffer_new (- w, - w) (w, w))"
    and "in_window (BlockBuffer_new (- w, - w) (w, w)) x y = (- w \<le> x \<and> x \<le> w \<and> - w \<le> y \<and> y \<le> w)"
  using assms by (auto simp add: bb_wf_def BlockBuffer_new_def Let_def in_window_def)

lemma bb_fill_shape:
  "same_shape bb (bb_fill bb ps c)"
proof (induction ps arbitrary: bb)
  case Nil
  then show ?case by (simp add: bb_fill_def)
next
  case (Cons p ps)
  have "same_shape (bb_upd bb (fst p) (snd p) (c p)) (bb_fill (bb_upd bb (fst p) (snd p) (c p)) ps c)"
    by (rule Cons.IH)
  then have "same_shape bb (bb_fill (bb_upd bb (fst p) (snd p) (c p)) ps c)"
    using same_shape_trans same_shape_upd by blast
  then show ?case by (simp add: bb_fill_def)
qed

lemma bb_fill_val:
  assumes "bb_wf bb" and "\<forall>p \<in> set ps. in_window bb (fst p) (snd p)" and "in_window bb x y"
  shows "bb_val (bb_fill bb ps c) x y = (if (x, y) \<in> set ps then c (x, y) else bb_val bb x y)"
  using assms
proof (induction ps arbitrary: bb)
  case Nil
  then show ?case by (simp add: bb_fill_def)
next
  case (Cons p ps)
  let ?b1 = "bb_upd bb (fst p) (snd p) (c p)"
  have sh: "same_shape bb ?b1" by simp
  have pw: "in_window bb (fst p) (snd p)" using Cons.prems(2) by simp
  have "bb_val (bb_fill ?b1 ps c) x y = (if (x, y) \<in> set ps then c (x, y) else bb_val ?b1 x y)"
    using Cons.prems same_shape_wf [OF sh] same_shape_window [OF sh] by (intro Cons.IH) simp_all
  moreover have "bb_val ?b1 x y = (if x = fst p \<and> y = snd p then c p else bb_val bb x y)"
    using Cons.prems(1) pw Cons.prems(3) by (rule bb_val_upd)
  moreover have "bb_fill bb (p # ps) c = bb_fill ?b1 ps c" by (simp add: bb_fill_def)
  ultimately show ?case by (cases p) auto
qed

lemma fold_BlockBuffer_set:
  assumes "\<forall>p \<in> set ps. in_window bb (fst p) (snd p)"
  shows "fold (\<lambda>p buf. Option.bind buf (\<lambda>b1. BlockBuffer_set b1 (fst p) (snd p) (c p))) ps (Some bb)
           = Some (bb_fill bb ps c)"
proof -
  have "fold (\<lambda>p buf. Option.bind buf (\<lambda>b1. BlockBuffer_set b1 (fst p) (snd p) (c p))) ps (Some bb)
          = Some (fold (\<lambda>p b1. bb_upd b1 (fst p) (snd p) (c p)) ps bb)
        \<and> same_shape bb (fold (\<lambda>p b1. bb_upd b1 (fst p) (snd p) (c p)) ps bb)"
  proof (rule fold_Some_invariant)
    show "same_shape bb bb" by simp
  next
    fix p s
    assume p: "p \<in> set ps" and s: "same_shape bb s"
    then have "in_window s (fst p) (snd p)" using assms by (simp add: same_shape_window)
    then have "BlockBuffer_set s (fst p) (snd p) (c p) = Some (bb_upd s (fst p) (snd p) (c p))"
      by (rule BlockBuffer_set_Some)
    moreover have "same_shape bb (bb_upd s (fst p) (snd p) (c p))"
      using s same_shape_trans same_shape_upd by blast
    ultimately show "Option.bind (Some s) (\<lambda>b1. BlockBuffer_set b1 (fst p) (snd p) (c p))
          = Some (bb_upd s (fst p) (snd p) (c p))
        \<and> same_shape bb (bb_upd s (fst p) (snd p) (c p))"
      by simp
  qed
  then show ?thesis by (simp add: bb_fill_def)
qed

section \<open>Writing cells of the grid\<close>

lemma in_sprite_sprite_upd [simp]: "in_sprite (sprite_upd skip pos h p m) c = in_sprite m c"
  by (simp add: sprite_upd_def)

lemma in_sprite_fold_sprite_upd [simp]:
  "in_sprite (fold (sprite_upd skip pos h) ps m) c = in_sprite m c"
  by (induction ps arbitrary: m) simp_all

lemma GetColourValue_sprite_upd:
  "GetColourValue (sprite_upd skip pos h p m) c =
     (if c = pos p \<and> \<not> skip p \<and> in_sprite m c then quantise (h p (GetColourValue m c))
      else GetColourValue m c)"
  by (auto simp add: sprite_upd_def GetColourValue_SetColourValue)

lemma fold_sprite_upd_other:
  "c \<notin> pos ` set ps \<Longrightarrow> GetColourValue (fold (sprite_upd skip pos h) ps m) c = GetColourValue m c"
proof (induction ps arbitrary: m)
  case Nil
  then show ?case by simp
next
  case (Cons p ps)
  then show ?case by (simp add: GetColourValue_sprite_upd)
qed

lemma fold_sprite_upd_at:
  assumes "distinct ps" and "inj_on pos (set ps)" and "p \<in> set ps"
  shows "GetColourValue (fold (sprite_upd skip pos h) ps m) (pos p) =
     (if skip p \<or> \<not> in_sprite m (pos p) then GetColourValue m (pos p)
      else quantise (h p (GetColourValue m (pos p))))"
  using assms
proof (induction ps arbitrary: m)
  case Nil
  then show ?case by simp
next
  case (Cons q ps)
  show ?case
  proof (cases "p = q")
    case True
    then have "pos p \<notin> pos ` set ps"
      using Cons.prems(1,2) by (auto simp add: inj_on_def)
    then have "GetColourValue (fold (sprite_upd skip pos h) ps (sprite_upd skip pos h q m)) (pos p)
                 = GetColourValue (sprite_upd skip pos h q m) (pos p)"
      by (rule fold_sprite_upd_other)
    then show ?thesis using True by (simp add: GetColourValue_sprite_upd)
  next
    case False
    then have mem: "p \<in> set ps" using Cons.prems(3) by simp
    then have ne: "pos p \<noteq> pos q"
      using False Cons.prems(2) by (auto simp add: inj_on_def)
    have "GetColourValue (fold (sprite_upd skip pos h) ps (sprite_upd skip pos h q m)) (pos p) =
       (if skip p \<or> \<not> in_sprite (sprite_upd skip pos h q m) (pos p)
        then GetColourValue (sprite_upd skip pos h q m) (pos p)
        else quantise (h p (GetColourValue (sprite_upd skip pos h q m) (pos p))))"
      using Cons.prems(1,2) mem by (intro Cons.IH) simp_all
    then show ?thesis using ne by (simp add: GetColourValue_sprite_upd)
  qed
qed

section \<open>The naive BlendBall\<close>

lemma set_square: "set (square w) = {p. - w \<le> fst p \<and> fst p \<le> w \<and> - w \<le> snd p \<and> snd p \<le> w}"
  by (auto simp add: square_def)

lemma distinct_square: "distinct (square w)"
  by (simp add: square_def distinct_product)

lemma inj_offset_by: "inj_on (offset_by tx ty) A"
  by (auto simp add: inj_on_def offset_by_def prod_eq_iff)

lemma blend_fill_eq:
  "blend_fill m brush blend_rng tx ty
     = Some (bb_fill (BlockBuffer_new (- brush, - brush) (brush, brush)) (square brush)
               (\<lambda>p. blend_cell m brush blend_rng tx ty (fst p) (snd p)))"
proof (cases "0 \<le> brush")
  case True
  have w: "\<forall>p \<in> set (square brush).
             in_window (BlockBuffer_new (- brush, - brush) (brush, brush)) (fst p) (snd p)"
    using True by (simp add: BlockBuffer_new_square set_square)
  show ?thesis
    unfolding blend_fill_def fold_product square_def [symmetric]
    using fold_BlockBuffer_set [OF w] by simp
next
  case False
  then have "[- brush..brush] = []" by simp
  then show ?thesis by (simp add: blend_fill_def square_def bb_fill_def)
qed

lemma blend_apply_eq:
  assumes "\<forall>p \<in> set (square brush). in_window bb (fst p) (snd p)"
  shows "blend_apply bb brush tx ty m
     = Some (fold (sprite_upd (\<lambda>p. False) (offset_by tx ty) (\<lambda>p cur. bb_val bb (fst p) (snd p)))
               (square brush) m)"
proof -
  have "fold (\<lambda>p acc. Option.bind acc
                 (\<lambda>m1. map_option (SetColourValue m1 (fst p + tx, snd p + ty))
                          (BlockBuffer_get bb (fst p) (snd p))))
          (square brush) (Some m)
        = Some (fold (sprite_upd (\<lambda>p. False) (offset_by tx ty) (\<lambda>p cur. bb_val bb (fst p) (snd p)))
               (square brush) m) \<and> True"
  proof (rule fold_Some_invariant)
    show True ..
  next
    fix p s
    assume "p \<in> set (square brush)"
    then have "BlockBuffer_get bb (fst p) (snd p) = Some (bb_val bb (fst p) (snd p))"
      using assms by (intro BlockBuffer_get_Some) simp
    then show "Option.bind (Some s)
            (\<lambda>m1. map_option (SetColourValue m1 (fst p + tx, snd p + ty))
                     (BlockBuffer_get bb (fst p) (snd p)))
          = Some (sprite_upd (\<lambda>p. False) (offset_by tx ty) (\<lambda>p cur. bb_val bb (fst p) (snd p)) p s)
          \<and> True"
      by (simp add: sprite_upd_def offset_by_def)
  qed
  then show ?thesis
    unfolding blend_apply_def fold_product square_def [symmetric] by simp
qed

lemma BlendBallFractional_at_eq:
  "BlendBallFractional_at m brush blend_rng (tx, ty) = Some (naive_result m brush blend_rng tx ty)"
proof (cases "0 \<le> brush")
  case True
  let ?b0 = "BlockBuffer_new (- brush, - brush) (brush, brush)"
  let ?c = "\<lambda>p. blend_cell m brush blend_rng tx ty (fst p) (snd p)"
  let ?bb = "bb_fill ?b0 (square brush) ?c"
  have w0: "\<forall>p \<in> set (square brush). in_window ?b0 (fst p) (snd p)"
    using True by (simp add: BlockBuffer_new_square set_square)
  then have w: "\<forall>p \<in> set (square brush). in_window ?bb (fst p) (snd p)"
    using bb_fill_shape [of ?b0 "square brush" ?c] by (simp add: same_shape_window)
  have val: "bb_val ?bb x y = blend_cell m brush blend_rng tx ty x y"
    if "(x, y) \<in> set (square brush)" for x y
    using bb_fill_val [of ?b0 "square brush" x y ?c] that w0 True
    by (simp add: BlockBuffer_new_square set_square)
  have "fold (sprite_upd (\<lambda>p. False) (offset_by tx ty) (\<lambda>p cur. bb_val ?bb (fst p) (snd p)))
          (square brush) m = naive_result m brush blend_rng tx ty"
    unfolding naive_result_def
    by (rule fold_cong) (auto simp add: sprite_upd_def val fun_eq_iff)
  then show ?thesis
    by (simp add: BlendBallFractional_at_def blend_fill_eq blend_apply_eq [OF w])
next
  case False
  then have "[- brush..brush] = []" by simp
  then show ?thesis
    by (simp add: BlendBallFractional_at_def blend_fill_def blend_apply_def naive_result_def square_def)
qed

lemma in_square: "(p \<in> set (square w)) = (\<bar>fst p\<bar> \<le> w \<and> \<bar>snd p\<bar> \<le> w)"
  by (auto simp add: set_square)

lemma naive_result_outside:
  assumes "\<not> (\<bar>fst c - tx\<bar> \<le> brush \<and> \<bar>snd c - ty\<bar> \<le> brush)"
  shows "GetColourValue (naive_result m brush blend_rng tx ty) c = GetColourValue m c"
proof -
  have "c \<notin> offset_by tx ty ` set (square brush)"
    using assms by (auto simp add: offset_by_def set_square)
  then show ?thesis unfolding naive_result_def by (rule fold_sprite_upd_other)
qed

lemma naive_result_inside:
  assumes "\<bar>x\<bar> \<le> brush" and "\<bar>y\<bar> \<le> brush"
  shows "GetColourValue (naive_result m brush blend_rng tx ty) (x + tx, y + ty) =
     (if in_sprite m (x + tx, y + ty) then quantise (blend_cell m brush blend_rng tx ty x y)
      else GetColourValue m (x + tx, y + ty))"
proof -
  have mem: "(x, y) \<in> set (square brush)" using assms by (simp add: in_square)
  have "GetColourValue (naive_result m brush blend_rng tx ty) (offset_by tx ty (x, y)) =
     (if False \<or> \<not> in_sprite m (offset_by tx ty (x, y)) then GetColourValue m (offset_by tx ty (x, y))
      else quantise (blend_cell m brush blend_rng tx ty (fst (x, y)) (snd (x, y))))"
    unfolding naive_result_def
    using distinct_square inj_offset_by mem by (rule fold_sprite_upd_at)
  then show ?thesis by (simp add: offset_by_def)
qed

section \<open>Sliding windows\<close>

lemma map_upto_shift: "map (\<lambda>d. f (x + d)) [i..j] = map f [x + i..x + j]"
proof (rule nth_equalityI)
  show "length (map (\<lambda>d. f (x + d)) [i..j]) = length (map f [x + i..x + j])" by simp
next
  fix n
  assume "n < length (map (\<lambda>d. f (x + d)) [i..j])"
  then have n: "i + int n \<le> j" by simp
  then have "[i..j] ! n = i + int n" "[x + i..x + j] ! n = x + i + int n" by simp_all
  then show "map (\<lambda>d. f (x + d)) [i..j] ! n = map f [x + i..x + j] ! n"
    using n by (simp add: algebra_simps)
qed

lemma win_offsets: "map (\<lambda>d. f (x + d)) [- k..k] = win f k x"
  using map_upto_shift [of f x "- k" k] by (simp add: win_def)

lemma prime_fold:
  "fold (\<lambda>d (colour_sum, buffered_values). (colour_sum + f d, buffered_values @ [f d])) ds (s, q)
     = (s + sum_list (map f ds), q @ map f ds)"
  by (induction ds arbitrary: s q) (simp_all add: algebra_simps)

lemma win_slide:
  assumes "0 \<le> k"
  shows "tl (win f k (x - 1) @ [f (x + k)]) = win f k x"
    and "sum_list (win f k (x - 1)) + f (x + k) - hd (win f k (x - 1) @ [f (x + k)])
           = sum_list (win f k x)"
proof -
  have lo: "x - 1 - k \<le> x - 1 + k" using assms by simp
  have a: "[x - 1 - k..x - 1 + k] = (x - 1 - k) # [x - k..x - 1 + k]"
    using lo by (subst upto_rec1) (simp_all add: algebra_simps)
  have b: "[x - k..x + k] = [x - k..x - 1 + k] @ [x + k]"
    using assms upto_rec2 [of "x - k" "x + k"] by (simp add: algebra_simps)
  show "tl (win f k (x - 1) @ [f (x + k)]) = win f k x"
    by (simp add: win_def a b)
  show "sum_list (win f k (x - 1)) + f (x + k) - hd (win f k (x - 1) @ [f (x + k)])
           = sum_list (win f k x)"
    by (simp add: win_def a b)
qed

section \<open>The horizontal pass\<close>

lemma xblur_step_first:
  "xblur_step m brush k px y (y + py) (real_of_int (2 * k + 1)) (- brush) (0, [], buf) =
     (sum_list (win (\<lambda>t. GetColourValue m (t + px, y + py)) k (- brush)),
      win (\<lambda>t. GetColourValue m (t + px, y + py)) k (- brush),
      Option.bind buf (\<lambda>bb. BlockBuffer_set bb (- brush) y (rowavg m k px py (- brush) y)))"
proof -
  let ?f = "\<lambda>t. GetColourValue m (t + px, y + py)"
  have "fold (\<lambda>ox (colour_sum, buffered_values).
            (colour_sum + ?f (- brush + ox), buffered_values @ [?f (- brush + ox)]))
          [- k..k] (0, [])
        = (sum_list (win ?f k (- brush)), win ?f k (- brush))"
    using prime_fold [of "\<lambda>d. ?f (- brush + d)" "[- k..k]" 0 "[]"] win_offsets [of ?f "- brush" k]
    by simp
  then show ?thesis
    by (simp add: xblur_step_def Let_def rowavg_def algebra_simps)
qed

lemma xblur_step_next:
  assumes "0 \<le> k" and "x \<noteq> - brush"
  shows "xblur_step m brush k px y (y + py) (real_of_int (2 * k + 1)) x
           (sum_list (win (\<lambda>t. GetColourValue m (t + px, y + py)) k (x - 1)),
            win (\<lambda>t. GetColourValue m (t + px, y + py)) k (x - 1), buf) =
     (sum_list (win (\<lambda>t. GetColourValue m (t + px, y + py)) k x),
      win (\<lambda>t. GetColourValue m (t + px, y + py)) k x,
      Option.bind buf (\<lambda>bb. BlockBuffer_set bb x y (rowavg m k px py x y)))"
proof -
  let ?f = "\<lambda>t. GetColourValue m (t + px, y + py)"
  have "tl (win ?f k (x - 1) @ [?f (x + k)]) = win ?f k x"
    and "sum_list (win ?f k (x - 1)) + ?f (x + k) - hd (win ?f k (x - 1) @ [?f (x + k)])
           = sum_list (win ?f k x)"
    using win_slide [OF assms(1), of ?f x] by simp_all
  then show ?thesis
    using assms(2) by (simp add: xblur_step_def Let_def rowavg_def algebra_simps)
qed

lemma bb_fill_Cons: "bb_fill bb (p # ps) c = bb_fill (bb_upd bb (fst p) (snd p) (c p)) ps c"
  by (simp add: bb_fill_def)

lemma bb_fill_append: "bb_fill bb (ps @ qs) c = bb_fill (bb_fill bb ps c) qs c"
  by (simp add: bb_fill_def)

lemma xblur_tail:
  assumes "0 \<le> k"
  shows "n = nat (brush + 1 - i) \<Longrightarrow> - brush < i \<Longrightarrow> \<forall>x \<in> {i..brush}. in_window bb x y \<Longrightarrow>
     snd (snd (fold (xblur_step m brush k px y (y + py) (real_of_int (2 * k + 1))) [i..brush]
        (sum_list (win (\<lambda>t. GetColourValue m (t + px, y + py)) k (i - 1)),
         win (\<lambda>t. GetColourValue m (t + px, y + py)) k (i - 1), Some bb)))
     = Some (bb_fill bb (row_of y i brush) (\<lambda>p. rowavg m k px py (fst p) (snd p)))"
proof (induction n arbitrary: i bb)
  case 0
  then have "[i..brush] = []" by simp
  then show ?case by (simp add: row_of_def bb_fill_def)
next
  case (Suc n)
  then have le: "i \<le> brush" by simp
  let ?b1 = "bb_upd bb i y (rowavg m k px py i y)"
  have w: "in_window bb i y" using Suc.prems(3) le by simp
  have step: "xblur_step m brush k px y (y + py) (real_of_int (2 * k + 1)) i
           (sum_list (win (\<lambda>t. GetColourValue m (t + px, y + py)) k (i - 1)),
            win (\<lambda>t. GetColourValue m (t + px, y + py)) k (i - 1), Some bb) =
     (sum_list (win (\<lambda>t. GetColourValue m (t + px, y + py)) k (i + 1 - 1)),
      win (\<lambda>t. GetColourValue m (t + px, y + py)) k (i + 1 - 1), Some ?b1)"
    using xblur_step_next [OF assms, of i brush m px y py "Some bb"] Suc.prems(2) w
    by (simp add: BlockBuffer_set_Some)
  have "snd (snd (fold (xblur_step m brush k px y (y + py) (real_of_int (2 * k + 1))) [i + 1..brush]
        (sum_list (win (\<lambda>t. GetColourValue m (t + px, y + py)) k (i + 1 - 1)),
         win (\<lambda>t. GetColourValue m (t + px, y + py)) k (i + 1 - 1), Some ?b1)))
     = Some (bb_fill ?b1 (row_of y (i + 1) brush) (\<lambda>p. rowavg m k px py (fst p) (snd p)))"
  proof (rule Suc.IH)
    show "n = nat (brush + 1 - (i + 1))" using Suc.prems(1) by simp
    show "- brush < i + 1" using Suc.prems(2) by simp
    show "\<forall>x \<in> {i + 1..brush}. in_window ?b1 x y"
      using Suc.prems(3) same_shape_window [OF same_shape_upd] by simp
  qed
  then show ?case
    using le step by (simp add: upto_rec1 [of i brush] row_of_def bb_fill_Cons)
qed

lemma xblur_row_eq:
  assumes "0 \<le> k" and "\<forall>x \<in> {- brush..brush}. in_window bb x y"
  shows "xblur_row m brush k px py y (Some bb)
           = Some (bb_fill bb (row_of y (- brush) brush) (\<lambda>p. rowavg m k px py (fst p) (snd p)))"
proof (cases "0 \<le> brush")
  case False
  then have "[- brush..brush] = []" by simp
  then show ?thesis by (simp add: xblur_row_def Let_def row_of_def bb_fill_def)
next
  case True
  let ?b1 = "bb_upd bb (- brush) y (rowavg m k px py (- brush) y)"
  have w: "in_window bb (- brush) y" using assms(2) True by simp
  have first: "xblur_step m brush k px y (y + py) (real_of_int (2 * k + 1)) (- brush) (0, [], Some bb) =
     (sum_list (win (\<lambda>t. GetColourValue m (t + px, y + py)) k (- brush + 1 - 1)),
      win (\<lambda>t. GetColourValue m (t + px, y + py)) k (- brush + 1 - 1), Some ?b1)"
    using xblur_step_first [of m brush k px y py "Some bb"] w by (simp add: BlockBuffer_set_Some)
  have "snd (snd (fold (xblur_step m brush k px y (y + py) (real_of_int (2 * k + 1))) [- brush + 1..brush]
        (sum_list (win (\<lambda>t. GetColourValue m (t + px, y + py)) k (- brush + 1 - 1)),
         win (\<lambda>t. GetColourValue m (t + px, y + py)) k (- brush + 1 - 1), Some ?b1)))
     = Some (bb_fill ?b1 (row_of y (- brush + 1) brush) (\<lambda>p. rowavg m k px py (fst p) (snd p)))"
  proof (rule xblur_tail [OF assms(1) refl])
    show "- brush < - brush + 1" by simp
    show "\<forall>x \<in> {- brush + 1..brush}. in_window ?b1 x y"
      using assms(2) same_shape_window [OF same_shape_upd] by simp
  qed
  then show ?thesis
    using True first
    by (simp add: xblur_row_def Let_def upto_rec1 [of "- brush" brush] row_of_def bb_fill_Cons)
qed

section \<open>The vertical pass\<close>

lemma prime_read:
  assumes "\<forall>d \<in> set ds. in_window bb x (y + d)"
  shows "fold (\<lambda>oy acc. Option.bind acc (\<lambda>(colour_sum, buffered_values).
                 map_option (\<lambda>val. (colour_sum + val, buffered_values @ [val]))
                   (BlockBuffer_get bb x (y + oy))))
           ds (Some (s, q))
         = Some (s + sum_list (map (\<lambda>d. bb_val bb x (y + d)) ds),
                 q @ map (\<lambda>d. bb_val bb x (y + d)) ds)"
  using assms
proof (induction ds arbitrary: s q)
  case Nil
  then show ?case by simp
next
  case (Cons d ds)
  then show ?case by (simp add: BlockBuffer_get_Some algebra_simps)
qed

lemma yblur_step_first:
  assumes "\<forall>t \<in> {- brush - k..- brush + k}. in_window bb x t" and "in_window bb x (- brush)"
  shows "yblur_step brush k x (real_of_int (2 * k + 1)) (- brush) (Some (0, [], bb)) =
     Some (sum_list (win (\<lambda>t. bb_val bb x t) k (- brush)), win (\<lambda>t. bb_val bb x t) k (- brush),
           bb_upd bb x (- brush) (colavg bb k x (- brush)))"
proof -
  have "\<forall>d \<in> set [- k..k]. in_window bb x (- brush + d)" using assms(1) by simp
  from prime_read [OF this, of 0 "[]"]
  have "fold (\<lambda>oy acc. Option.bind acc (\<lambda>(colour_sum, buffered_values).
                 map_option (\<lambda>val. (colour_sum + val, buffered_values @ [val]))
                   (BlockBuffer_get bb x (- brush + oy))))
           [- k..k] (Some (0, []))
         = Some (sum_list (win (\<lambda>t. bb_val bb x t) k (- brush)), win (\<lambda>t. bb_val bb x t) k (- brush))"
    using win_offsets [of "\<lambda>t. bb_val bb x t" "- brush" k] by simp
  then show ?thesis
    using assms(2) by (simp add: yblur_step_def Let_def colavg_def BlockBuffer_set_Some)
qed

lemma yblur_step_next:
  assumes "0 \<le> k" and "y \<noteq> - brush" and "in_window bc x (y + k)" and "in_window bc x y"
    and "bb_val bc x (y + k) = f (y + k)"
  shows "yblur_step brush k x (real_of_int (2 * k + 1)) y
           (Some (sum_list (win f k (y - 1)), win f k (y - 1), bc)) =
     Some (sum_list (win f k y), win f k y,
           bb_upd bc x y (sum_list (win f k y) / real_of_int (2 * k + 1)))"
proof -
  have "tl (win f k (y - 1) @ [f (y + k)]) = win f k y"
    and "sum_list (win f k (y - 1)) + f (y + k) - hd (win f k (y - 1) @ [f (y + k)])
           = sum_list (win f k y)"
    using win_slide [OF assms(1), of f y] by simp_all
  then show ?thesis
    using assms(2-5)
    by (simp add: yblur_step_def Let_def BlockBuffer_get_Some BlockBuffer_set_Some)
qed

lemma yblur_tail:
  assumes "0 \<le> k" and "bb_wf bb"
  shows "n = nat (brush + 1 - i) \<Longrightarrow> - brush < i \<Longrightarrow> same_shape bb bc \<Longrightarrow>
     \<forall>t \<in> {i..brush + k}. in_window bb x t \<Longrightarrow>
     \<forall>t \<in> {i..brush + k}. bb_val bc x t = bb_val bb x t \<Longrightarrow>
     map_option (\<lambda>st. snd (snd st))
       (fold (yblur_step brush k x (real_of_int (2 * k + 1))) [i..brush]
          (Some (sum_list (win (\<lambda>t. bb_val bb x t) k (i - 1)), win (\<lambda>t. bb_val bb x t) k (i - 1), bc)))
     = Some (bb_fill bc (column_of x i brush) (\<lambda>p. colavg bb k (fst p) (snd p)))"
proof (induction n arbitrary: i bc)
  case 0
  then have "[i..brush] = []" by simp
  then show ?case by (simp add: column_of_def bb_fill_def)
next
  case (Suc n)
  then have le: "i \<le> brush" by simp
  let ?f = "\<lambda>t. bb_val bb x t"
  let ?b1 = "bb_upd bc x i (colavg bb k x i)"
  have wi: "in_window bc x i" and wk: "in_window bc x (i + k)"
    using Suc.prems(3,4) le assms(1) by (simp_all add: same_shape_window)
  have rd: "bb_val bc x (i + k) = ?f (i + k)"
    using Suc.prems(5) le assms(1) by simp
  have step: "yblur_step brush k x (real_of_int (2 * k + 1)) i
           (Some (sum_list (win ?f k (i - 1)), win ?f k (i - 1), bc)) =
     Some (sum_list (win ?f k (i + 1 - 1)), win ?f k (i + 1 - 1), ?b1)"
    using yblur_step_next [of k i brush bc x ?f] assms(1) wk wi rd Suc.prems(2)
    by (simp add: colavg_def)
  have sh1: "same_shape bb ?b1"
    using Suc.prems(3) same_shape_trans same_shape_upd by blast
  have "map_option (\<lambda>st. snd (snd st))
       (fold (yblur_step brush k x (real_of_int (2 * k + 1))) [i + 1..brush]
          (Some (sum_list (win ?f k (i + 1 - 1)), win ?f k (i + 1 - 1), ?b1)))
     = Some (bb_fill ?b1 (column_of x (i + 1) brush) (\<lambda>p. colavg bb k (fst p) (snd p)))"
  proof (rule Suc.IH)
    show "n = nat (brush + 1 - (i + 1))" using Suc.prems(1) by simp
    show "- brush < i + 1" using Suc.prems(2) by simp
    show "same_shape bb ?b1" by (rule sh1)
    show "\<forall>t \<in> {i + 1..brush + k}. in_window bb x t" using Suc.prems(4) by simp
    show "\<forall>t \<in> {i + 1..brush + k}. bb_val ?b1 x t = bb_val bb x t"
    proof
      fix t assume t: "t \<in> {i + 1..brush + k}"
      then have "in_window bc x t"
        using Suc.prems(3,4) by (simp add: same_shape_window)
      then have "bb_val ?b1 x t = (if x = x \<and> t = i then colavg bb k x i else bb_val bc x t)"
        using assms(2) Suc.prems(3) wi by (intro bb_val_upd) (simp_all add: same_shape_wf)
      then show "bb_val ?b1 x t = bb_val bb x t"
        using t Suc.prems(5) by simp
    qed
  qed
  then show ?case
    using le step by (simp add: upto_rec1 [of i brush] column_of_def bb_fill_Cons)
qed

lemma yblur_column_eq:
  assumes "0 \<le> k" and "bb_wf bb" and "\<forall>t \<in> {- brush - k..brush + k}. in_window bb x t"
  shows "yblur_column brush k x (Some bb)
           = Some (bb_fill bb (column_of x (- brush) brush) (\<lambda>p. colavg bb k (fst p) (snd p)))"
proof (cases "0 \<le> brush")
  case False
  then have "[- brush..brush] = []" by simp
  then show ?thesis by (simp add: yblur_column_def Let_def column_of_def bb_fill_def)
next
  case True
  let ?f = "\<lambda>t. bb_val bb x t"
  let ?b1 = "bb_upd bb x (- brush) (colavg bb k x (- brush))"
  have w0: "in_window bb x (- brush)" using assms(1,3) True by simp
  have first: "yblur_step brush k x (real_of_int (2 * k + 1)) (- brush) (Some (0, [], bb)) =
     Some (sum_list (win ?f k (- brush + 1 - 1)), win ?f k (- brush + 1 - 1), ?b1)"
    using yblur_step_first [of brush k bb x] assms(3) w0 True by simp
  have "map_option (\<lambda>st. snd (snd st))
       (fold (yblur_step brush k x (real_of_int (2 * k + 1))) [- brush + 1..brush]
          (Some (sum_list (win ?f k (- brush + 1 - 1)), win ?f k (- brush + 1 - 1), ?b1)))
     = Some (bb_fill ?b1 (column_of x (- brush + 1) brush) (\<lambda>p. colavg bb k (fst p) (snd p)))"
  proof (rule yblur_tail [OF assms(1,2) refl])
    show "- brush < - brush + 1" by simp
    show "same_shape bb ?b1" by simp
    show "\<forall>t \<in> {- brush + 1..brush + k}. in_window bb x t" using assms(1,3) by simp
    show "\<forall>t \<in> {- brush + 1..brush + k}. bb_val ?b1 x t = bb_val bb x t"
    proof
      fix t assume t: "t \<in> {- brush + 1..brush + k}"
      then have "in_window bb x t" using assms(1,3) by simp
      then have "bb_val ?b1 x t = (if x = x \<and> t = - brush then colavg bb k x (- brush) else bb_val bb x t)"
        using assms(2) w0 by (intro bb_val_upd) simp_all
      then show "bb_val ?b1 x t = bb_val bb x t" using t by simp
    qed
  qed
  then show ?thesis
    using True first
    by (simp add: yblur_column_def Let_def upto_rec1 [of "- brush" brush] column_of_def bb_fill_Cons)
qed

section \<open>The separable BlendBall\<close>

lemma colavg_cong:
  assumes "\<forall>t \<in> {y - k..y + k}. bb_val b1 x t = bb_val b2 x t"
  shows "colavg b1 k x y = colavg b2 k x y"
proof -
  have "map (\<lambda>t. bb_val b1 x t) [y - k..y + k] = map (\<lambda>t. bb_val b2 x t) [y - k..y + k]"
    using assms by (intro map_cong) simp_all
  then have e: "win (\<lambda>t. bb_val b1 x t) k y = win (\<lambda>t. bb_val b2 x t) k y"
    by (simp add: win_def)
  show ?thesis unfolding colavg_def e ..
qed

lemma fold_bb_fill_concat:
  "fold (\<lambda>y b1. bb_fill b1 (row y) c) ys bb = bb_fill bb (concat (map row ys)) c"
  by (induction ys arbitrary: bb) (simp_all add: bb_fill_append, simp add: bb_fill_def)

lemma set_blur_rows:
  "set (blur_rows brush ext) = {p. \<bar>fst p\<bar> \<le> brush \<and> \<bar>snd p\<bar> \<le> ext}"
  by (force simp add: blur_rows_def row_of_def)

lemma set_column_of: "set (column_of x i j) = {p. fst p = x \<and> i \<le> snd p \<and> snd p \<le> j}"
  by (auto simp add: column_of_def)

lemma xblur_all:
  assumes "0 \<le> k" and "0 \<le> brush"
  shows "fold (xblur_row m brush k px py) [- (brush + k)..brush + k]
           (Some (BlockBuffer_new (- (brush + k), - (brush + k)) (brush + k, brush + k)))
         = Some (bb_fill (BlockBuffer_new (- (brush + k), - (brush + k)) (brush + k, brush + k))
                   (blur_rows brush (brush + k)) (\<lambda>p. rowavg m k px py (fst p) (snd p)))"
proof -
  let ?e = "brush + k"
  let ?b0 = "BlockBuffer_new (- ?e, - ?e) (?e, ?e)"
  let ?c = "\<lambda>p. rowavg m k px py (fst p) (snd p)"
  have e: "0 \<le> ?e" using assms by simp
  have "fold (xblur_row m brush k px py) [- ?e..?e] (Some ?b0)
          = Some (fold (\<lambda>y b1. bb_fill b1 (row_of y (- brush) brush) ?c) [- ?e..?e] ?b0)
        \<and> same_shape ?b0 (fold (\<lambda>y b1. bb_fill b1 (row_of y (- brush) brush) ?c) [- ?e..?e] ?b0)"
  proof (rule fold_Some_invariant)
    show "same_shape ?b0 ?b0" by simp
  next
    fix y s
    assume y: "y \<in> set [- ?e..?e]" and s: "same_shape ?b0 s"
    have "\<forall>x \<in> {- brush..brush}. in_window s x y"
      using y assms same_shape_window [OF s] BlockBuffer_new_square(2) [OF e] by simp
    then have "xblur_row m brush k px py y (Some s) = Some (bb_fill s (row_of y (- brush) brush) ?c)"
      using assms(1) by (intro xblur_row_eq) simp_all
    moreover have "same_shape ?b0 (bb_fill s (row_of y (- brush) brush) ?c)"
      using s same_shape_trans bb_fill_shape by blast
    ultimately show "xblur_row m brush k px py y (Some s) = Some (bb_fill s (row_of y (- brush) brush) ?c)
        \<and> same_shape ?b0 (bb_fill s (row_of y (- brush) brush) ?c)"
      by simp
  qed
  then show ?thesis by (simp add: fold_bb_fill_concat blur_rows_def)
qed

lemma yblur_all:
  assumes "0 \<le> k" and "0 \<le> brush" and "bb_wf bb"
    and win: "\<And>x t. in_window bb x t = (\<bar>x\<bar> \<le> brush + k \<and> \<bar>t\<bar> \<le> brush + k)"
  shows "n = nat (brush + 1 - i) \<Longrightarrow> - brush \<le> i \<Longrightarrow> same_shape bb bc \<Longrightarrow>
     \<forall>x \<in> {i..brush}. \<forall>t. in_window bb x t \<longrightarrow> bb_val bc x t = bb_val bb x t \<Longrightarrow>
     \<exists>bc'. fold (yblur_column brush k) [i..brush] (Some bc) = Some bc' \<and> same_shape bb bc'
        \<and> (\<forall>x t. x < i \<longrightarrow> in_window bb x t \<longrightarrow> bb_val bc' x t = bb_val bc x t)
        \<and> (\<forall>x \<in> {i..brush}. \<forall>y \<in> {- brush..brush}. bb_val bc' x y = colavg bb k x y)"
proof (induction n arbitrary: i bc)
  case 0
  then have "[i..brush] = []" "{i..brush} = {}" by simp_all
  then show ?case using "0.prems"(3) by simp
next
  case (Suc n)
  then have le: "i \<le> brush" by simp
  let ?c = "\<lambda>p. colavg bc k (fst p) (snd p)"
  let ?b1 = "bb_fill bc (column_of i (- brush) brush) ?c"
  have wfc: "bb_wf bc" using assms(3) Suc.prems(3) by (simp add: same_shape_wf)
  have winc: "in_window bc x t = (\<bar>x\<bar> \<le> brush + k \<and> \<bar>t\<bar> \<le> brush + k)" for x t
    using win Suc.prems(3) by (simp add: same_shape_window)
  have col: "yblur_column brush k i (Some bc) = Some ?b1"
    using assms(1) wfc le Suc.prems(2) by (intro yblur_column_eq) (auto simp add: winc)
  have sh1: "same_shape bb ?b1"
    using Suc.prems(3) same_shape_trans bb_fill_shape by blast
  have colw: "\<forall>p \<in> set (column_of i (- brush) brush). in_window bc (fst p) (snd p)"
    using le Suc.prems(2) assms(1) by (auto simp add: set_column_of winc)
  have val1: "bb_val ?b1 x t = (if x = i \<and> \<bar>t\<bar> \<le> brush then colavg bc k i t else bb_val bc x t)"
    if "in_window bb x t" for x t
    using bb_fill_val [OF wfc colw, of x t ?c] that win winc
    by (auto simp add: set_column_of)
  have same_col: "colavg bc k i t = colavg bb k i t" if "\<bar>t\<bar> \<le> brush" for t
  proof (rule colavg_cong)
    have agree: "\<forall>t'. in_window bb i t' \<longrightarrow> bb_val bc i t' = bb_val bb i t'"
      using Suc.prems(4) le by simp
    show "\<forall>t' \<in> {t - k..t + k}. bb_val bc i t' = bb_val bb i t'"
    proof
      fix t' assume "t' \<in> {t - k..t + k}"
      then have "\<bar>t'\<bar> \<le> brush + k" using that by auto
      moreover have "\<bar>i\<bar> \<le> brush + k" using le Suc.prems(2) assms(1) by auto
      ultimately have "in_window bb i t'" by (simp add: win)
      then show "bb_val bc i t' = bb_val bb i t'" using agree by simp
    qed
  qed
  have "\<exists>bc'. fold (yblur_column brush k) [i + 1..brush] (Some ?b1) = Some bc' \<and> same_shape bb bc'
        \<and> (\<forall>x t. x < i + 1 \<longrightarrow> in_window bb x t \<longrightarrow> bb_val bc' x t = bb_val ?b1 x t)
        \<and> (\<forall>x \<in> {i + 1..brush}. \<forall>y \<in> {- brush..brush}. bb_val bc' x y = colavg bb k x y)"
  proof (rule Suc.IH)
    show "n = nat (brush + 1 - (i + 1))" using Suc.prems(1) by simp
    show "- brush \<le> i + 1" using Suc.prems(2) by simp
    show "same_shape bb ?b1" by (rule sh1)
    show "\<forall>x \<in> {i + 1..brush}. \<forall>t. in_window bb x t \<longrightarrow> bb_val ?b1 x t = bb_val bb x t"
      using val1 Suc.prems(4) by simp
  qed
  then obtain bc' where bc': "fold (yblur_column brush k) [i + 1..brush] (Some ?b1) = Some bc'"
      "same_shape bb bc'"
      "\<forall>x t. x < i + 1 \<longrightarrow> in_window bb x t \<longrightarrow> bb_val bc' x t = bb_val ?b1 x t"
      "\<forall>x \<in> {i + 1..brush}. \<forall>y \<in> {- brush..brush}. bb_val bc' x y = colavg bb k x y"
    by blast
  have f: "fold (yblur_column brush k) [i..brush] (Some bc) = Some bc'"
    using le col bc'(1) by (simp add: upto_rec1 [of i brush])
  have frame: "\<forall>x t. x < i \<longrightarrow> in_window bb x t \<longrightarrow> bb_val bc' x t = bb_val bc x t"
    using bc'(3) val1 by simp
  have vals: "\<forall>x \<in> {i..brush}. \<forall>y \<in> {- brush..brush}. bb_val bc' x y = colavg bb k x y"
  proof (intro ballI)
    fix x y assume x: "x \<in> {i..brush}" and y: "y \<in> {- brush..brush}"
    show "bb_val bc' x y = colavg bb k x y"
    proof (cases "x = i")
      case True
      have "in_window bb i y" using y le Suc.prems(2) assms(1) by (auto simp add: win)
      then have "bb_val bc' i y = bb_val ?b1 i y" using bc'(3) by simp
      also have "\<dots> = colavg bc k i y" using val1 [OF \<open>in_window bb i y\<close>] y by auto
      also have "\<dots> = colavg bb k i y" using same_col y by auto
      finally show ?thesis using True by simp
    next
      case False
      then show ?thesis using x y bc'(4) by simp
    qed
  qed
  show ?case using f bc'(2) frame vals by blast
qed

lemma paste_eq:
  assumes "\<forall>p \<in> set (square brush). in_window bb (fst p) (snd p)"
  shows "fold (\<lambda>x. fold (paste_cell bb brush px py x) [- brush..brush]) [- brush..brush] (Some m)
     = Some (fold (sprite_upd (outside_brush brush) (offset_by px py)
                     (\<lambda>p cur. Lerp (EaseInOutCubic (bb_val bb (fst p) (snd p))) cur (blend_weight brush p)))
               (square brush) m)"
proof -
  have "fold (\<lambda>p. paste_cell bb brush px py (fst p) (snd p)) (square brush) (Some m)
        = Some (fold (sprite_upd (outside_brush brush) (offset_by px py)
                     (\<lambda>p cur. Lerp (EaseInOutCubic (bb_val bb (fst p) (snd p))) cur (blend_weight brush p)))
               (square brush) m) \<and> True"
  proof (rule fold_Some_invariant)
    show True ..
  next
    fix p s
    assume "p \<in> set (square brush)"
    then have "BlockBuffer_get bb (fst p) (snd p) = Some (bb_val bb (fst p) (snd p))"
      using assms by (intro BlockBuffer_get_Some) simp
    then show "paste_cell bb brush px py (fst p) (snd p) (Some s)
          = Some (sprite_upd (outside_brush brush) (offset_by px py)
                     (\<lambda>p cur. Lerp (EaseInOutCubic (bb_val bb (fst p) (snd p))) cur (blend_weight brush p)) p s)
          \<and> True"
      by (simp add: paste_cell_def sprite_upd_def offset_by_def outside_brush_def blend_weight_def Let_def)
  qed
  then show ?thesis
    unfolding fold_product square_def [symmetric] by simp
qed

lemma BlendBallFractionalFast2_at_eq:
  assumes "0 \<le> k"
  shows "BlendBallFractionalFast2_at m brush k (tx, ty) = Some (fast2_result m brush k tx ty)"
proof (cases "0 \<le> brush")
  case False
  then have e: "[- brush..brush] = []" by simp
  have "fold (xblur_row m brush k tx ty) ys (Some bb) = Some bb" for ys bb
    by (induction ys) (simp_all add: xblur_row_def Let_def e)
  then show ?thesis
    by (simp add: BlendBallFractionalFast2_at_def Let_def e fast2_result_def square_def)
next
  case True
  let ?e = "brush + k"
  let ?b0 = "BlockBuffer_new (- ?e, - ?e) (?e, ?e)"
  let ?c = "\<lambda>p. rowavg m k tx ty (fst p) (snd p)"
  let ?b1 = "bb_fill ?b0 (blur_rows brush ?e) ?c"
  have e: "0 \<le> ?e" using assms True by simp
  have wf0: "bb_wf ?b0" and win0: "\<And>x t. in_window ?b0 x t = (\<bar>x\<bar> \<le> ?e \<and> \<bar>t\<bar> \<le> ?e)"
    using BlockBuffer_new_square [OF e] by auto
  have sh1: "same_shape ?b0 ?b1" by (rule bb_fill_shape)
  have wf1: "bb_wf ?b1" using wf0 same_shape_wf [OF sh1] by simp
  have win1: "\<And>x t. in_window ?b1 x t = (\<bar>x\<bar> \<le> ?e \<and> \<bar>t\<bar> \<le> ?e)"
    using win0 same_shape_window [OF sh1] by simp
  have x1: "fold (xblur_row m brush k tx ty) [- ?e..?e] (Some ?b0) = Some ?b1"
    using xblur_all [OF assms True] by simp
  have val1: "bb_val ?b1 x t = rowavg m k tx ty x t" if "\<bar>x\<bar> \<le> brush" "\<bar>t\<bar> \<le> ?e" for x t
  proof -
    have "\<forall>p \<in> set (blur_rows brush ?e). in_window ?b0 (fst p) (snd p)"
    proof
      fix p assume "p \<in> set (blur_rows brush ?e)"
      then have "\<bar>fst p\<bar> \<le> ?e \<and> \<bar>snd p\<bar> \<le> ?e" using assms by (auto simp add: set_blur_rows)
      then show "in_window ?b0 (fst p) (snd p)" by (simp only: win0)
    qed
    moreover have "\<bar>x\<bar> \<le> ?e \<and> \<bar>t\<bar> \<le> ?e" using that assms by auto
    then have "in_window ?b0 x t" by (simp only: win0)
    ultimately have "bb_val ?b1 x t = (if (x, t) \<in> set (blur_rows brush ?e) then ?c (x, t) else bb_val ?b0 x t)"
      using wf0 by (intro bb_fill_val) simp_all
    then show ?thesis using that by (simp add: set_blur_rows)
  qed
  have "\<exists>bc'. fold (yblur_column brush k) [- brush..brush] (Some ?b1) = Some bc' \<and> same_shape ?b1 bc'
        \<and> (\<forall>x t. x < - brush \<longrightarrow> in_window ?b1 x t \<longrightarrow> bb_val bc' x t = bb_val ?b1 x t)
        \<and> (\<forall>x \<in> {- brush..brush}. \<forall>y \<in> {- brush..brush}. bb_val bc' x y = colavg ?b1 k x y)"
    using assms True wf1 win1 by (intro yblur_all [OF _ _ _ _ refl]) simp_all
  then obtain b2 where b2: "fold (yblur_column brush k) [- brush..brush] (Some ?b1) = Some b2"
      "same_shape ?b1 b2"
      "\<forall>x \<in> {- brush..brush}. \<forall>y \<in> {- brush..brush}. bb_val b2 x y = colavg ?b1 k x y"
    by blast
  have val2: "bb_val b2 x y = box2 m k tx ty x y" if "(x, y) \<in> set (square brush)" for x y
  proof -
    have xy: "\<bar>x\<bar> \<le> brush" "\<bar>y\<bar> \<le> brush" using that by (simp_all add: in_square)
    then have "x \<in> {- brush..brush}" "y \<in> {- brush..brush}" by auto
    then have "bb_val b2 x y = colavg ?b1 k x y" using b2(3) by blast
    also have "\<dots> = box2 m k tx ty x y"
    proof -
      have "map (\<lambda>t. bb_val ?b1 x t) [y - k..y + k] = map (\<lambda>t. rowavg m k tx ty x t) [y - k..y + k]"
      proof (rule map_cong [OF refl])
        fix t assume "t \<in> set [y - k..y + k]"
        then have "\<bar>t\<bar> \<le> ?e" using xy(2) by auto
        then show "bb_val ?b1 x t = rowavg m k tx ty x t" using xy(1) by (rule val1 [rotated])
      qed
      then have "win (\<lambda>t. bb_val ?b1 x t) k y = win (\<lambda>t. rowavg m k tx ty x t) k y"
        by (simp add: win_def)
      then show ?thesis unfolding colavg_def box2_def by simp
    qed
    finally show ?thesis .
  qed
  have w2: "\<forall>p \<in> set (square brush). in_window b2 (fst p) (snd p)"
  proof
    fix p assume "p \<in> set (square brush)"
    then have "\<bar>fst p\<bar> \<le> ?e \<and> \<bar>snd p\<bar> \<le> ?e" using assms by (auto simp add: in_square)
    then have "in_window ?b1 (fst p) (snd p)" by (simp only: win1)
    then show "in_window b2 (fst p) (snd p)" by (simp only: same_shape_window [OF b2(2)])
  qed
  have "fold (sprite_upd (outside_brush brush) (offset_by tx ty)
             (\<lambda>p cur. Lerp (EaseInOutCubic (bb_val b2 (fst p) (snd p))) cur (blend_weight brush p)))
          (square brush) m = fast2_result m brush k tx ty"
    unfolding fast2_result_def
    by (rule fold_cong) (auto simp add: sprite_upd_def val2 fun_eq_iff)
  then show ?thesis
    using x1 b2(1) paste_eq [OF w2, of tx ty m]
    by (simp add: BlendBallFractionalFast2_at_def Let_def)
qed

lemma fast2_result_outside:
  assumes "\<not> (\<bar>fst c - tx\<bar> \<le> brush \<and> \<bar>snd c - ty\<bar> \<le> brush)"
  shows "GetColourValue (fast2_result m brush k tx ty) c = GetColourValue m c"
proof -
  have "c \<notin> offset_by tx ty ` set (square brush)"
    using assms by (auto simp add: offset_by_def set_square)
  then show ?thesis unfolding fast2_result_def by (rule fold_sprite_upd_other)
qed

lemma fast2_result_inside:
  assumes "\<bar>x\<bar> \<le> brush" and "\<bar>y\<bar> \<le> brush"
  shows "GetColourValue (fast2_result m brush k tx ty) (x + tx, y + ty) =
     (if outside_brush brush (x, y) \<or> \<not> in_sprite m (x + tx, y + ty)
      then GetColourValue m (x + tx, y + ty)
      else quantise (Lerp (EaseInOutCubic (box2 m k tx ty x y)) (GetColourValue m (x + tx, y + ty))
                      (blend_weight brush (x, y))))"
proof -
  have mem: "(x, y) \<in> set (square brush)" using assms by (simp add: in_square)
  have "GetColourValue (fast2_result m brush k tx ty) (offset_by tx ty (x, y)) =
     (if outside_brush brush (x, y) \<or> \<not> in_sprite m (offset_by tx ty (x, y))
      then GetColourValue m (offset_by tx ty (x, y))
      else quantise (Lerp (EaseInOutCubic (box2 m k tx ty (fst (x, y)) (snd (x, y))))
                      (GetColourValue m (offset_by tx ty (x, y))) (blend_weight brush (x, y))))"
    unfolding fast2_result_def
    using distinct_square inj_offset_by mem by (rule fold_sprite_upd_at)
  then show ?thesis by (simp add: offset_by_def)
qed

section \<open>The summed-area-table BlendBall\<close>

lemma flat_index_in_bounds:
  fixes n :: int
  assumes "0 \<le> y" and "y < n" and "0 \<le> x" and "x < n"
  shows "0 \<le> y * n + x \<and> y * n + x < n * n"
proof -
  have n: "0 \<le> n" using assms by linarith
  have "0 \<le> y * n" using assms(1) n by (rule mult_nonneg_nonneg)
  moreover have "(y + 1) * n \<le> n * n" using assms n by (intro mult_right_mono) simp_all
  then have "y * n + x < n * n" using assms(4) by (simp add: algebra_simps)
  ultimately show ?thesis using assms(3) by simp
qed

lemma sums_get_Some:
  "0 \<le> i \<Longrightarrow> i < int (length tbl) \<Longrightarrow> sums_get tbl i = Some (tbl ! nat i)"
  by (simp add: sums_get_def)

lemma sums_put_Some:
  "0 \<le> i \<Longrightarrow> i < int (length tbl) \<Longrightarrow> sums_put tbl i v = Some (tbl[nat i := v])"
  by (simp add: sums_put_def)

lemma sat_cell_Some:
  assumes "0 \<le> y" and "y < n" and "0 \<le> x" and "x < n" and "int (length tbl) = n * n"
  shows "sat_cell m half n tx ty y x (Some (tbl, y * n + x))
     = Some (tbl[nat (y * n + x) := sat_entry m half n tx ty tbl y x], y * n + (x + 1))"
proof -
  let ?i = "y * n + x"
  have i: "0 \<le> ?i" "?i < int (length tbl)"
    using flat_index_in_bounds [OF assms(1-4)] assms(5) by simp_all
  have yn: "0 \<le> y * n" using assms(1,2) by simp
  have pred: "(y - 1) * n = y * n - n" by (simp add: algebra_simps)
  have i1: "x > 0 \<Longrightarrow> 0 \<le> ?i - 1 \<and> ?i - 1 < int (length tbl)"
    using i yn by linarith
  have i2: "y > 0 \<Longrightarrow> 0 \<le> ?i - n \<and> ?i - n < int (length tbl)"
    using flat_index_in_bounds [of "y - 1" n x] assms i unfolding pred by linarith
  have i3: "x > 0 \<Longrightarrow> y > 0 \<Longrightarrow> 0 \<le> ?i - (n + 1) \<and> ?i - (n + 1) < int (length tbl)"
    using flat_index_in_bounds [of "y - 1" n "x - 1"] assms i unfolding pred by linarith
  show ?thesis
    using i i1 i2 i3
    by (simp add: sat_cell_def Let_def sums_get_Some sums_put_Some sat_entry_def)
qed

lemma sat_row_Some:
  assumes "0 \<le> y" and "y < n"
  shows "k = nat (n - j) \<Longrightarrow> 0 \<le> j \<Longrightarrow> j \<le> n \<Longrightarrow> int (length tbl) = n * n \<Longrightarrow>
     \<exists>tbl'. fold (sat_cell m half n tx ty y) [j..n - 1] (Some (tbl, y * n + j)) = Some (tbl', (y + 1) * n)
        \<and> length tbl' = length tbl"
proof (induction k arbitrary: j tbl)
  case 0
  then have "[j..n - 1] = []" "j = n" by simp_all
  then show ?case by (simp add: algebra_simps)
next
  case (Suc k)
  then have lt: "j < n" by simp
  let ?t1 = "tbl[nat (y * n + j) := sat_entry m half n tx ty tbl y j]"
  have step: "sat_cell m half n tx ty y j (Some (tbl, y * n + j)) = Some (?t1, y * n + (j + 1))"
    using assms Suc.prems(2,4) lt by (intro sat_cell_Some) simp_all
  have "\<exists>tbl'. fold (sat_cell m half n tx ty y) [j + 1..n - 1] (Some (?t1, y * n + (j + 1)))
          = Some (tbl', (y + 1) * n) \<and> length tbl' = length ?t1"
    using Suc.prems lt by (intro Suc.IH) simp_all
  then show ?case using lt step by (simp add: upto_rec1 [of j "n - 1"])
qed

lemma sat_rows_Some:
  "k = nat (n - j) \<Longrightarrow> 0 \<le> j \<Longrightarrow> j \<le> n \<Longrightarrow> int (length tbl) = n * n \<Longrightarrow>
     \<exists>tbl'. fold (\<lambda>y. fold (sat_cell m half n tx ty y) [0..n - 1]) [j..n - 1] (Some (tbl, j * n))
          = Some (tbl', n * n) \<and> length tbl' = length tbl"
proof (induction k arbitrary: j tbl)
  case 0
  then have "[j..n - 1] = []" "j = n" by simp_all
  then show ?case by simp
next
  case (Suc k)
  then have lt: "j < n" by simp
  have "\<exists>tbl'. fold (sat_cell m half n tx ty j) [0..n - 1] (Some (tbl, j * n + 0)) = Some (tbl', (j + 1) * n)
        \<and> length tbl' = length tbl"
    using Suc.prems(2,4) lt by (intro sat_row_Some [OF _ _ refl]) simp_all
  then obtain t1 where t1: "fold (sat_cell m half n tx ty j) [0..n - 1] (Some (tbl, j * n)) = Some (t1, (j + 1) * n)"
      "length t1 = length tbl"
    by auto
  have "\<exists>tbl'. fold (\<lambda>y. fold (sat_cell m half n tx ty y) [0..n - 1]) [j + 1..n - 1] (Some (t1, (j + 1) * n))
          = Some (tbl', n * n) \<and> length tbl' = length t1"
    using Suc.prems t1(2) lt by (intro Suc.IH) simp_all
  then show ?case using lt t1 by (simp add: upto_rec1 [of j "n - 1"])
qed

lemma sat_build_Some:
  assumes "0 \<le> n"
  shows "\<exists>tbl. sat_build m half n tx ty = Some tbl \<and> int (length tbl) = n * n"
proof -
  have "\<exists>tbl'. fold (\<lambda>y. fold (sat_cell m half n tx ty y) [0..n - 1]) [0..n - 1]
            (Some (replicate (nat (n * n)) 0, 0 * n))
          = Some (tbl', n * n) \<and> length tbl' = length (replicate (nat (n * n)) (0::real))"
    using assms by (intro sat_rows_Some [OF refl]) simp_all
  then show ?thesis using assms by (auto simp add: sat_build_def)
qed

lemma sat_average_Some:
  assumes "int (length tbl) = n * n" and "0 \<le> x" and "x < n" and "0 \<le> y" and "y < n" and "0 \<le> k"
  shows "sat_average tbl k n x y = Some (sat_mean tbl k n x y)"
proof -
  let ?ymin = "max (y - k) 0 - 1" and ?ymax = "min (y + k) (n - 1)"
  let ?xmin = "max (x - k) 0 - 1" and ?xmax = "min (x + k) (n - 1)"
  have ymax: "0 \<le> ?ymax" "?ymax < n" and xmax: "0 \<le> ?xmax" "?xmax < n"
    using assms by simp_all
  have ymin: "?ymin < n" and xmin: "?xmin < n" using assms by simp_all
  have ia: "\<not> (?xmin < 0 \<or> ?ymin < 0) \<Longrightarrow>
             0 \<le> ?ymin * n + ?xmin \<and> ?ymin * n + ?xmin < int (length tbl)"
    using flat_index_in_bounds [of ?ymin n ?xmin] ymin xmin assms(1) by simp
  have ib: "\<not> ?ymin < 0 \<Longrightarrow> 0 \<le> ?ymin * n + ?xmax \<and> ?ymin * n + ?xmax < int (length tbl)"
    using flat_index_in_bounds [of ?ymin n ?xmax] ymin xmax assms(1) by simp
  have ic: "\<not> ?xmin < 0 \<Longrightarrow> 0 \<le> ?ymax * n + ?xmin \<and> ?ymax * n + ?xmin < int (length tbl)"
    using flat_index_in_bounds [of ?ymax n ?xmin] ymax xmin assms(1) by simp
  have id: "0 \<le> ?ymax * n + ?xmax \<and> ?ymax * n + ?xmax < int (length tbl)"
    using flat_index_in_bounds [of ?ymax n ?xmax] ymax xmax assms(1) by simp
  have ga: "(if ?xmin < 0 \<or> ?ymin < 0 then Some 0 else sums_get tbl (?ymin * n + ?xmin))
              = Some (if ?xmin < 0 \<or> ?ymin < 0 then 0 else tbl ! nat (?ymin * n + ?xmin))"
    using ia by (simp add: sums_get_def)
  have gb: "(if ?ymin < 0 then Some 0 else sums_get tbl (?ymin * n + ?xmax))
              = Some (if ?ymin < 0 then 0 else tbl ! nat (?ymin * n + ?xmax))"
    using ib by (simp add: sums_get_def)
  have gc: "(if ?xmin < 0 then Some 0 else sums_get tbl (?ymax * n + ?xmin))
              = Some (if ?xmin < 0 then 0 else tbl ! nat (?ymax * n + ?xmin))"
    using ic by (simp add: sums_get_def)
  have gd: "sums_get tbl (?ymax * n + ?xmax) = Some (tbl ! nat (?ymax * n + ?xmax))"
    using id by (simp add: sums_get_def)
  show ?thesis
    unfolding sat_average_def sat_mean_def Let_def ga gb gc gd by simp
qed

lemma inj_region_pos: "inj_on (region_pos half tx ty) A"
  by (auto simp add: inj_on_def region_pos_def prod_eq_iff)

lemma BlendBallFractionalFast_at_eq:
  assumes "0 \<le> brush"
  shows "\<exists>tbl. sat_build m (brush + 5) (2 * (brush + 5) + 1) tx ty = Some tbl
           \<and> int (length tbl) = (2 * (brush + 5) + 1) * (2 * (brush + 5) + 1)
           \<and> BlendBallFractionalFast_at m brush (tx, ty) = Some (fast_result m brush tx ty tbl)"
proof -
  let ?h = "brush + 5" and ?n = "2 * (brush + 5) + 1"
  have n: "0 \<le> ?n" using assms by simp
  obtain tbl where tbl: "sat_build m ?h ?n tx ty = Some tbl" "int (length tbl) = ?n * ?n"
    using sat_build_Some [OF n] by blast
  have e: "?n - 1 = 2 * (brush + 5)" by simp
  have "fold (\<lambda>p. sat_apply_cell tbl brush 5 ?h ?n tx ty (fst p) (snd p))
          (List.product [0..2 * (brush + 5)] [0..2 * (brush + 5)]) (Some m)
        = Some (fold (sprite_upd (\<lambda>p. False) (region_pos ?h tx ty)
             (\<lambda>p cur. Lerp cur (sat_mean tbl 5 ?n (snd p) (fst p)) (sat_weight brush ?h p)))
             (List.product [0..2 * (brush + 5)] [0..2 * (brush + 5)]) m) \<and> True"
  proof (rule fold_Some_invariant)
    show True ..
  next
    fix p s
    assume "p \<in> set (List.product [0..2 * (brush + 5)] [0..2 * (brush + 5)])"
    then have "0 \<le> snd p" "snd p < ?n" "0 \<le> fst p" "fst p < ?n" by auto
    then have "sat_average tbl 5 ?n (snd p) (fst p) = Some (sat_mean tbl 5 ?n (snd p) (fst p))"
      using tbl(2) by (intro sat_average_Some) simp_all
    then show "sat_apply_cell tbl brush 5 ?h ?n tx ty (fst p) (snd p) (Some s)
          = Some (sprite_upd (\<lambda>p. False) (region_pos ?h tx ty)
             (\<lambda>p cur. Lerp cur (sat_mean tbl 5 ?n (snd p) (fst p)) (sat_weight brush ?h p)) p s)
          \<and> True"
      by (simp add: sat_apply_cell_def sprite_upd_def region_pos_def sat_weight_def Let_def)
  qed
  then have main: "fold (\<lambda>y. fold (sat_apply_cell tbl brush 5 ?h ?n tx ty y) [0..2 * (brush + 5)])
          [0..2 * (brush + 5)] (Some m) = Some (fast_result m brush tx ty tbl)"
    unfolding fold_product fast_result_def by simp
  have "BlendBallFractionalFast_at m brush (tx, ty) = Some (fast_result m brush tx ty tbl)"
    unfolding BlendBallFractionalFast_at_def Let_def fst_conv snd_conv e tbl(1)
    by (simp only: Option.bind.simps main)
  then show ?thesis using tbl by blast
qed

lemma Lerp_zero: "Lerp x y 0 = x"
  by (simp add: Lerp_def)

lemma fast_result_frame:
  assumes "brush \<noteq> 0"
    and "brush * brush \<le> 2 * ((fst c - tx) * (fst c - tx) + (snd c - ty) * (snd c - ty))"
  shows "GetColourValue (fast_result m brush tx ty tbl) c = GetColourValue m c"
proof (cases "c \<in> region_pos (brush + 5) tx ty ` set (List.product [0..2 * (brush + 5)] [0..2 * (brush + 5)])")
  case False
  then show ?thesis unfolding fast_result_def by (rule fold_sprite_upd_other)
next
  case True
  then obtain p where p: "p \<in> set (List.product [0..2 * (brush + 5)] [0..2 * (brush + 5)])"
      "c = region_pos (brush + 5) tx ty p"
    by blast
  let ?d2 = "(snd p - (brush + 5)) * (snd p - (brush + 5)) + (fst p - (brush + 5)) * (fst p - (brush + 5))"
  have d2: "brush * brush \<le> 2 * ?d2"
    using assms(2) p(2) by (simp add: region_pos_def)
  have pos: "0 < brush * brush" using assms(1) by (auto simp add: zero_less_mult_iff)
  define D where "D = real_of_int ?d2"
  define R where "R = real_of_int (brush * brush)"
  have "real_of_int (brush * brush) \<le> real_of_int (2 * ?d2)"
    using d2 by (simp only: of_int_le_iff)
  then have "R \<le> 2 * D" by (simp add: D_def R_def)
  moreover have "0 < R" using pos by (simp only: R_def of_int_0_less_iff)
  ultimately have "1 / 2 \<le> D / R" by (simp add: field_simps)
  moreover have "sat_weight brush (brush + 5) p = max ((1 - D / R) * 2 - 1) 0"
    by (simp only: sat_weight_def D_def R_def)
  ultimately have w: "sat_weight brush (brush + 5) p = 0" by simp
  have "GetColourValue (fast_result m brush tx ty tbl) (region_pos (brush + 5) tx ty p) =
     (if False \<or> \<not> in_sprite m (region_pos (brush + 5) tx ty p)
      then GetColourValue m (region_pos (brush + 5) tx ty p)
      else quantise (Lerp (GetColourValue m (region_pos (brush + 5) tx ty p))
                      (sat_mean tbl 5 (2 * (brush + 5) + 1) (snd p) (fst p))
                      (sat_weight brush (brush + 5) p)))"
    unfolding fast_result_def
    using distinct_product [OF distinct_upto distinct_upto] inj_region_pos p(1)
    by (rule fold_sprite_upd_at)
  then show ?thesis
    using p(2) w by (simp add: Lerp_zero quantise_GetColourValue)
qed

section \<open>Buffer safety and the frame of the BlendBall brushes\<close>

lemma BlockBuffer_set_wf:
  assumes "bb_wf bb" and "BlockBuffer_set bb x y v = Some bb'"
  shows "bb_wf bb'"
  using assms by (auto simp add: BlockBuffer_set_def bb_wf_def Let_def split: if_splits)

text \<open>
  C10. For every brush radius of at least 1 and every blend range of at least 0, the naive
  and the separable BlendBall return a grid: no get or set of the scratch buffer uses
  coordinates outside the window the buffer was constructed with. The buffers they construct
  are well formed (the vector holds x_size * y_size values), a set keeps a buffer well formed,
  and in a well-formed buffer the flat index of coordinates within the window lies within
  the vector.
\<close>

theorem BlockBuffer_accesses_stay_in_window:
  assumes "1 \<le> brush" and "0 \<le> blend_rng"
  shows "(\<exists>m1. BlendBallFractional_at m brush blend_rng hit = Some m1)
   \<and> (\<exists>m2. BlendBallFractionalFast2_at m brush blend_rng hit = Some m2)
   \<and> bb_wf (BlockBuffer_new (- brush, - brush) (brush, brush))
   \<and> bb_wf (BlockBuffer_new (- (brush + blend_rng), - (brush + blend_rng))
              (brush + blend_rng, brush + blend_rng))
   \<and> (\<forall>bb x y v bb'. bb_wf bb \<longrightarrow> BlockBuffer_set bb x y v = Some bb' \<longrightarrow> bb_wf bb')
   \<and> (\<forall>bb x y. bb_wf bb \<longrightarrow> in_window bb x y \<longrightarrow>
         0 \<le> get_index bb x y \<and> get_index bb x y < int (length (buffer bb)))"
proof -
  obtain tx ty where hit: "hit = (tx, ty)" by (cases hit)
  have n: "\<exists>m1. BlendBallFractional_at m brush blend_rng hit = Some m1"
    unfolding hit by (simp add: BlendBallFractional_at_eq)
  have f: "\<exists>m2. BlendBallFractionalFast2_at m brush blend_rng hit = Some m2"
    unfolding hit using assms(2) by (simp add: BlendBallFractionalFast2_at_eq)
  have w1: "bb_wf (BlockBuffer_new (- brush, - brush) (brush, brush))"
    using assms(1) by (intro BlockBuffer_new_square) simp
  have w2: "bb_wf (BlockBuffer_new (- (brush + blend_rng), - (brush + blend_rng))
              (brush + blend_rng, brush + blend_rng))"
    using assms by (intro BlockBuffer_new_square) simp
  show ?thesis
    using n f w1 w2 BlockBuffer_set_wf get_index_in_bounds by blast
qed

theorem BlockBuffer_accesses_stay_in_window_witness:
  "(1::int) \<le> 4 \<and> (0::int) \<le> 15
   \<and> (\<exists>m1. BlendBallFractional_at (uniform_grid 512 512 WHITE) 4 15 (100, 100) = Some m1)
   \<and> (\<exists>m2. BlendBallFractionalFast2_at (uniform_grid 512 512 WHITE) 4 15 (100, 100) = Some m2)"
proof -
  have h1: "(1::int) \<le> 4" and h2: "(0::int) \<le> 15" by simp_all
  show ?thesis
    using h1 h2 BlockBuffer_accesses_stay_in_window [OF h1 h2, of "uniform_grid 512 512 WHITE" "(100, 100)"]
    by blast
qed

lemma naive_result_frame:
  assumes "brush * brush \<le> (fst c - tx) * (fst c - tx) + (snd c - ty) * (snd c - ty)"
  shows "GetColourValue (naive_result m brush blend_rng tx ty) c = GetColourValue m c"
proof (cases "\<bar>fst c - tx\<bar> \<le> brush \<and> \<bar>snd c - ty\<bar> \<le> brush")
  case False
  then show ?thesis by (rule naive_result_outside)
next
  case True
  let ?x = "fst c - tx" and ?y = "snd c - ty"
  have c: "c = (?x + tx, ?y + ty)" by simp
  have "real_of_int (brush * brush) \<le> real_of_int (?x * ?x + ?y * ?y)"
    using assms by (simp only: of_int_le_iff)
  then have cell: "blend_cell m brush blend_rng tx ty ?x ?y = GetColourValue m (?x + tx, ?y + ty)"
    by (simp add: blend_cell_def Let_def)
  have "GetColourValue (naive_result m brush blend_rng tx ty) (?x + tx, ?y + ty) =
     (if in_sprite m (?x + tx, ?y + ty) then quantise (blend_cell m brush blend_rng tx ty ?x ?y)
      else GetColourValue m (?x + tx, ?y + ty))"
    using True by (intro naive_result_inside) simp_all
  then show ?thesis
    unfolding cell using c by (simp add: quantise_GetColourValue)
qed

lemma fast2_result_frame:
  assumes "brush * brush \<le> (fst c - tx) * (fst c - tx) + (snd c - ty) * (snd c - ty)"
  shows "GetColourValue (fast2_result m brush k tx ty) c = GetColourValue m c"
proof (cases "\<bar>fst c - tx\<bar> \<le> brush \<and> \<bar>snd c - ty\<bar> \<le> brush")
  case False
  then show ?thesis by (rule fast2_result_outside)
next
  case True
  let ?x = "fst c - tx" and ?y = "snd c - ty"
  have c: "c = (?x + tx, ?y + ty)" by simp
  have out: "outside_brush brush (?x, ?y)" using assms by (simp add: outside_brush_def)
  have "GetColourValue (fast2_result m brush k tx ty) (?x + tx, ?y + ty) =
     (if outside_brush brush (?x, ?y) \<or> \<not> in_sprite m (?x + tx, ?y + ty)
      then GetColourValue m (?x + tx, ?y + ty)
      else quantise (Lerp (EaseInOutCubic (box2 m k tx ty ?x ?y)) (GetColourValue m (?x + tx, ?y + ty))
                      (blend_weight brush (?x, ?y))))"
    using True by (intro fast2_result_inside) simp_all
  then show ?thesis using out c by simp
qed

text \<open>
  C7. For every BlendBall variant, a cell whose squared distance from the hit cell is at
  least the squared brush radius has the same stored density after the operation as before
  it. The naive variant rewrites such a cell of its window with the value read back from
  it, the table variant blends it with weight 0, the separable variant skips it. The table
  variant divides by the squared brush radius, so its radius is taken to be at least 1; the
  separable variant needs a blend range of at least 0 to stay within its buffer.
\<close>

theorem cells_outside_the_brush_disc_are_untouched:
  assumes "brush * brush \<le> (fst c - fst hit) * (fst c - fst hit) + (snd c - snd hit) * (snd c - snd hit)"
  shows "(\<exists>m1. BlendBallFractional_at m brush blend_rng hit = Some m1
             \<and> GetColourValue m1 c = GetColourValue m c)
   \<and> (1 \<le> brush \<longrightarrow> (\<exists>m2. BlendBallFractionalFast_at m brush hit = Some m2
             \<and> GetColourValue m2 c = GetColourValue m c))
   \<and> (0 \<le> blend_rng \<longrightarrow> (\<exists>m3. BlendBallFractionalFast2_at m brush blend_rng hit = Some m3
             \<and> GetColourValue m3 c = GetColourValue m c))"
proof -
  obtain tx ty where hit: "hit = (tx, ty)" by (cases hit)
  have d: "brush * brush \<le> (fst c - tx) * (fst c - tx) + (snd c - ty) * (snd c - ty)"
    using assms by (simp add: hit)
  have n: "\<exists>m1. BlendBallFractional_at m brush blend_rng hit = Some m1
             \<and> GetColourValue m1 c = GetColourValue m c"
    unfolding hit using naive_result_frame [OF d] by (simp add: BlendBallFractional_at_eq)
  have s: "\<exists>m2. BlendBallFractionalFast_at m brush hit = Some m2
             \<and> GetColourValue m2 c = GetColourValue m c" if b: "1 \<le> brush"
  proof -
    define D where "D = (fst c - tx) * (fst c - tx) + (snd c - ty) * (snd c - ty)"
    define R where "R = brush * brush"
    have "0 \<le> R" by (simp add: R_def)
    moreover have "R \<le> D" using d by (simp only: R_def D_def)
    ultimately have "R \<le> 2 * D" by linarith
    then have "brush * brush \<le> 2 * ((fst c - tx) * (fst c - tx) + (snd c - ty) * (snd c - ty))"
      by (simp only: R_def D_def)
    moreover have "brush \<noteq> 0" using b by simp
    ultimately have "GetColourValue (fast_result m brush tx ty tbl) c = GetColourValue m c" for tbl
      by (intro fast_result_frame)
    moreover obtain tbl where "BlendBallFractionalFast_at m brush (tx, ty) = Some (fast_result m brush tx ty tbl)"
      using BlendBallFractionalFast_at_eq [of brush m tx ty] b by auto
    ultimately show ?thesis unfolding hit by simp
  qed
  have f: "\<exists>m3. BlendBallFractionalFast2_at m brush blend_rng hit = Some m3
             \<and> GetColourValue m3 c = GetColourValue m c" if "0 \<le> blend_rng"
    unfolding hit using that fast2_result_frame [OF d]
    by (simp add: BlendBallFractionalFast2_at_eq)
  show ?thesis using n s f by blast
qed

theorem cells_outside_the_brush_disc_are_untouched_witness:
  "(4::int) * 4 \<le> (104 - 100) * (104 - 100) + (100 - 100) * (100 - 100)
   \<and> (\<exists>m1. BlendBallFractional_at (uniform_grid 512 512 WHITE) 4 15 (100, 100) = Some m1
         \<and> GetColourValue m1 (104, 100) = GetColourValue (uniform_grid 512 512 WHITE) (104, 100))
   \<and> (\<exists>m2. BlendBallFractionalFast_at (uniform_grid 512 512 WHITE) 4 (100, 100) = Some m2
         \<and> GetColourValue m2 (104, 100) = GetColourValue (uniform_grid 512 512 WHITE) (104, 100))
   \<and> (\<exists>m3. BlendBallFractionalFast2_at (uniform_grid 512 512 WHITE) 4 15 (100, 100) = Some m3
         \<and> GetColourValue m3 (104, 100) = GetColourValue (uniform_grid 512 512 WHITE) (104, 100))"
  using cells_outside_the_brush_disc_are_untouched
          [of 4 "(104, 100)" "(100, 100)" "uniform_grid 512 512 WHITE" 15]
  by simp

section \<open>Equivalence of the naive and the separable BlendBall\<close>

lemma pair_fold_inner:
  "fold (\<lambda>oy (max_sum_weighted, colour_sum_weighted). (max_sum_weighted + 1, colour_sum_weighted + F oy))
     ys (n0, c0) = (n0 + real (length ys), c0 + sum_list (map F ys))"
  by (induction ys arbitrary: n0 c0) (simp_all add: algebra_simps)

lemma pair_fold_outer:
  "fold (\<lambda>ox. fold (\<lambda>oy (max_sum_weighted, colour_sum_weighted).
                   (max_sum_weighted + 1, colour_sum_weighted + F ox oy)) ys) xs (n0, c0)
     = (n0 + real (length xs) * real (length ys),
        c0 + sum_list (map (\<lambda>ox. sum_list (map (F ox) ys)) xs))"
  by (induction xs arbitrary: n0 c0) (simp_all add: pair_fold_inner algebra_simps)

lemma sum_list_swap:
  "sum_list (map (\<lambda>s. sum_list (map (\<lambda>t. F s t) ts)) ss)
     = sum_list (map (\<lambda>t. sum_list (map (\<lambda>s. (F s t :: real)) ss)) ts)"
  by (induction ss) (simp_all add: sum_list_addf)

lemma sum_list_divide: "sum_list (map (\<lambda>t. F t / (n :: real)) ts) = sum_list (map F ts) / n"
  by (induction ts) (simp_all add: add_divide_distrib)

lemma blend_sums_eq:
  assumes "0 \<le> k"
  shows "blend_sums m k (x + tx) (y + ty)
           = (real_of_int (2 * k + 1) * real_of_int (2 * k + 1), boxsum m k tx ty x y)"
proof -
  have inner: "sum_list (map (\<lambda>oy. GetColourValue m (s, y + ty + oy)) [- k..k])
          = sum_list (map (\<lambda>t. GetColourValue m (s, t + ty)) [y - k..y + k])" for s
  proof -
    have "(\<lambda>oy. GetColourValue m (s, y + ty + oy)) = (\<lambda>d. (\<lambda>t. GetColourValue m (s, t + ty)) (y + d))"
      by (simp add: add.commute add.left_commute)
    then show ?thesis
      using map_upto_shift [of "\<lambda>t. GetColourValue m (s, t + ty)" y "- k" k] by simp
  qed
  have outer: "sum_list (map (\<lambda>ox. H (x + tx + ox)) [- k..k])
          = sum_list (map (\<lambda>s. H (s + tx)) [x - k..x + k])" for H :: "int \<Rightarrow> real"
  proof -
    have "(\<lambda>ox. H (x + tx + ox)) = (\<lambda>d. (\<lambda>s. H (s + tx)) (x + d))"
      by (simp add: add.commute add.left_commute)
    then show ?thesis
      using map_upto_shift [of "\<lambda>s. H (s + tx)" x "- k" k] by simp
  qed
  have len: "real (length [- k..k]) = real_of_int (2 * k + 1)" using assms by simp
  have "blend_sums m k (x + tx) (y + ty)
          = (0 + real (length [- k..k]) * real (length [- k..k]),
             0 + sum_list (map (\<lambda>ox. sum_list (map (\<lambda>oy. GetColourValue m (x + tx + ox, y + ty + oy))
                                                 [- k..k])) [- k..k]))"
    unfolding blend_sums_def by (rule pair_fold_outer)
  also have "\<dots> = (real_of_int (2 * k + 1) * real_of_int (2 * k + 1), boxsum m k tx ty x y)"
    unfolding len inner
    using outer [of "\<lambda>s. sum_list (map (\<lambda>t. GetColourValue m (s, t + ty)) [y - k..y + k])"]
    by (simp add: boxsum_def)
  finally show ?thesis .
qed

lemma box2_eq:
  "box2 m k tx ty x y = boxsum m k tx ty x y / (real_of_int (2 * k + 1) * real_of_int (2 * k + 1))"
proof -
  have "box2 m k tx ty x y
      = sum_list (map (\<lambda>t. sum_list (map (\<lambda>s. GetColourValue m (s + tx, t + ty)) [x - k..x + k])
                             / real_of_int (2 * k + 1)) [y - k..y + k]) / real_of_int (2 * k + 1)"
    by (simp add: box2_def rowavg_def win_def comp_def)
  also have "\<dots> = sum_list (map (\<lambda>t. sum_list (map (\<lambda>s. GetColourValue m (s + tx, t + ty)) [x - k..x + k]))
                        [y - k..y + k]) / real_of_int (2 * k + 1) / real_of_int (2 * k + 1)"
    by (simp only: sum_list_divide)
  also have "\<dots> = boxsum m k tx ty x y / (real_of_int (2 * k + 1) * real_of_int (2 * k + 1))"
    unfolding boxsum_def
    using sum_list_swap [of "\<lambda>s t. GetColourValue m (s + tx, t + ty)" "[y - k..y + k]" "[x - k..x + k]"]
    by simp
  finally show ?thesis .
qed

lemma blend_cell_inside:
  assumes "0 \<le> k" and "\<not> outside_brush brush (x, y)"
  shows "blend_cell m brush k tx ty x y
           = Lerp (EaseInOutCubic (box2 m k tx ty x y)) (GetColourValue m (x + tx, y + ty))
               (blend_weight brush (x, y))"
proof -
  have "x * x + y * y < brush * brush" using assms(2) by (simp add: outside_brush_def)
  then have "real_of_int (x * x + y * y) < real_of_int (brush * brush)"
    by (simp only: of_int_less_iff)
  then have lt: "\<not> real_of_int (brush * brush) \<le> real_of_int (x * x + y * y)" by simp
  show ?thesis
    unfolding blend_cell_def Let_def blend_sums_eq [OF assms(1)] box2_eq
    using lt by (simp add: Lerp_def blend_weight_def)
qed

lemma blend_cell_outside:
  assumes "outside_brush brush (x, y)"
  shows "blend_cell m brush k tx ty x y = GetColourValue m (x + tx, y + ty)"
proof -
  have "brush * brush \<le> x * x + y * y" using assms by (simp add: outside_brush_def)
  then have "real_of_int (brush * brush) \<le> real_of_int (x * x + y * y)"
    by (simp only: of_int_le_iff)
  then show ?thesis by (simp add: blend_cell_def Let_def)
qed

lemma naive_fast2_same_density:
  assumes "0 \<le> k"
  shows "GetColourValue (naive_result m brush k tx ty) c = GetColourValue (fast2_result m brush k tx ty) c"
proof (cases "\<bar>fst c - tx\<bar> \<le> brush \<and> \<bar>snd c - ty\<bar> \<le> brush")
  case False
  then show ?thesis by (simp add: naive_result_outside fast2_result_outside)
next
  case True
  let ?x = "fst c - tx" and ?y = "snd c - ty"
  have c: "c = (?x + tx, ?y + ty)" by simp
  have n: "GetColourValue (naive_result m brush k tx ty) (?x + tx, ?y + ty) =
     (if in_sprite m (?x + tx, ?y + ty) then quantise (blend_cell m brush k tx ty ?x ?y)
      else GetColourValue m (?x + tx, ?y + ty))"
    using True by (intro naive_result_inside) simp_all
  have f: "GetColourValue (fast2_result m brush k tx ty) (?x + tx, ?y + ty) =
     (if outside_brush brush (?x, ?y) \<or> \<not> in_sprite m (?x + tx, ?y + ty)
      then GetColourValue m (?x + tx, ?y + ty)
      else quantise (Lerp (EaseInOutCubic (box2 m k tx ty ?x ?y)) (GetColourValue m (?x + tx, ?y + ty))
                      (blend_weight brush (?x, ?y))))"
    using True by (intro fast2_result_inside) simp_all
  have "GetColourValue (naive_result m brush k tx ty) (?x + tx, ?y + ty)
          = GetColourValue (fast2_result m brush k tx ty) (?x + tx, ?y + ty)"
  proof (cases "outside_brush brush (?x, ?y)")
    case True
    then show ?thesis
      unfolding n f by (simp add: blend_cell_outside quantise_GetColourValue)
  next
    case False
    then show ?thesis
      unfolding n f by (simp add: blend_cell_inside [OF assms])
  qed
  then show ?thesis using c by simp
qed



section \<open>The BlendBall brushes on a uniform field\<close>

lemma boxsum_uniform:
  assumes "0 \<le> k"
    and "\<forall>s \<in> {x - k..x + k}. \<forall>t \<in> {y - k..y + k}. GetColourValue m (s + tx, t + ty) = v"
  shows "boxsum m k tx ty x y = real_of_int (2 * k + 1) * real_of_int (2 * k + 1) * v"
proof -
  have inner: "sum_list (map (\<lambda>t. GetColourValue m (s + tx, t + ty)) [y - k..y + k])
                 = real_of_int (2 * k + 1) * v" if "s \<in> {x - k..x + k}" for s
  proof -
    have e: "map (\<lambda>t. GetColourValue m (s + tx, t + ty)) [y - k..y + k] = map (\<lambda>t. v) [y - k..y + k]"
      using assms(2) that by (intro map_cong) simp_all
    have "sum_list (map (\<lambda>t. GetColourValue m (s + tx, t + ty)) [y - k..y + k])
            = sum_list (map (\<lambda>t. v) [y - k..y + k])"
      by (simp only: e)
    also have "\<dots> = real_of_int (2 * k + 1) * v" using assms(1) by (simp add: sum_list_triv)
    finally show ?thesis .
  qed
  have e: "map (\<lambda>s. sum_list (map (\<lambda>t. GetColourValue m (s + tx, t + ty)) [y - k..y + k])) [x - k..x + k]
          = map (\<lambda>s. real_of_int (2 * k + 1) * v) [x - k..x + k]"
    using inner by (intro map_cong) simp_all
  have "boxsum m k tx ty x y = sum_list (map (\<lambda>s. real_of_int (2 * k + 1) * v) [x - k..x + k])"
    unfolding boxsum_def by (simp only: e)
  also have "\<dots> = real_of_int (2 * k + 1) * real_of_int (2 * k + 1) * v"
    using assms(1) by (simp add: sum_list_triv)
  finally show ?thesis .
qed

lemma box2_uniform:
  assumes "0 \<le> k"
    and "\<forall>s \<in> {x - k..x + k}. \<forall>t \<in> {y - k..y + k}. GetColourValue m (s + tx, t + ty) = v"
  shows "box2 m k tx ty x y = v"
proof -
  have "real_of_int (2 * k + 1) \<noteq> 0" using assms(1) by simp
  then show ?thesis
    unfolding box2_eq boxsum_uniform [OF assms] by simp
qed







subsection \<open>The summed-area table of a uniform field\<close>












subsection \<open>The three brushes on a uniform field\<close>








lemma fast2_result_uniform:
  assumes k: "0 \<le> k"
    and u: "\<forall>c. \<bar>fst c - tx\<bar> \<le> brush + k \<and> \<bar>snd c - ty\<bar> \<le> brush + k \<longrightarrow> GetColourValue m c = v"
    and x: "\<bar>x\<bar> \<le> brush" and y: "\<bar>y\<bar> \<le> brush"
  shows "GetColourValue (fast2_result m brush k tx ty) (x + tx, y + ty) =
     (if outside_brush brush (x, y) \<or> \<not> in_sprite m (x + tx, y + ty) then v
      else quantise (Lerp (EaseInOutCubic v) v (blend_weight brush (x, y))))"
proof -
  have "\<bar>fst (x + tx, y + ty) - tx\<bar> \<le> brush + k \<and> \<bar>snd (x + tx, y + ty) - ty\<bar> \<le> brush + k"
    using x y k by simp
  then have cur: "GetColourValue m (x + tx, y + ty) = v"
    using u by blast
  have "\<forall>s \<in> {x - k..x + k}. \<forall>t \<in> {y - k..y + k}. GetColourValue m (s + tx, t + ty) = v"
  proof (intro ballI)
    fix s t
    assume "s \<in> {x - k..x + k}" and "t \<in> {y - k..y + k}"
    then have "\<bar>fst (s + tx, t + ty) - tx\<bar> \<le> brush + k \<and> \<bar>snd (s + tx, t + ty) - ty\<bar> \<le> brush + k"
      using x y by (simp; arith)
    then show "GetColourValue m (s + tx, t + ty) = v" using u by blast
  qed
  then have box: "box2 m k tx ty x y = v" by (rule box2_uniform [OF k])
  show ?thesis
    unfolding fast2_result_inside [OF x y] cur box by simp
qed

lemma naive_result_uniform:
  assumes k: "0 \<le> k"
    and u: "\<forall>c. \<bar>fst c - tx\<bar> \<le> brush + k \<and> \<bar>snd c - ty\<bar> \<le> brush + k \<longrightarrow> GetColourValue m c = v"
    and x: "\<bar>x\<bar> \<le> brush" and y: "\<bar>y\<bar> \<le> brush"
  shows "GetColourValue (naive_result m brush k tx ty) (x + tx, y + ty) =
     (if outside_brush brush (x, y) \<or> \<not> in_sprite m (x + tx, y + ty) then v
      else quantise (Lerp (EaseInOutCubic v) v (blend_weight brush (x, y))))"
  unfolding naive_fast2_same_density [OF k] by (rule fast2_result_uniform [OF assms])











lemma ease_level_0: "quantise (EaseInOutCubic 0) = 0"
  by (simp add: EaseInOutCubic_def quantise_floor clamp_def)

lemma ease_level_128: "quantise (EaseInOutCubic (128 / 255)) = 128 / 255"
  by (simp add: EaseInOutCubic_def quantise_floor clamp_def power3_eq_cube)




section \<open>The result of the CircleFull stamp\<close>





end
